theory Spec2Isabelle
  imports Complex_Main
begin

section \<open>The node-graph visualisation (class SystemViz)\<close>

text \<open>
  A shallow embedding of the class \<^verbatim>\<open>SystemViz\<close> of \<^verbatim>\<open>system-viz.js\<close>.
  The instance (\<^verbatim>\<open>this\<close>) is a record that every method takes and returns.
  JavaScript numbers are idealised as real numbers: \<^verbatim>\<open>Math.sqrt\<close> is \<open>sqrt\<close>,
  \<^verbatim>\<open>Math.sin\<close> is \<open>sin\<close>, and \<^verbatim>\<open>Math.round\<close> rounds halves upwards.
  The drawing calls on the canvas context leave no trace in the instance and are
  not modelled; what the drawing methods read, write and dereference is.
  An uncaught \<^verbatim>\<open>TypeError\<close> (a property read on \<^verbatim>\<open>undefined\<close>) is a value of the
  outcome type, together with the instance as it was when the error was thrown.
\<close>

subsection \<open>Data\<close>

text \<open>
  The keys of \<^verbatim>\<open>groupColors\<close>; every declared node uses one of them. The
  components \<^verbatim>\<open>r\<close>, \<^verbatim>\<open>g\<close>, \<^verbatim>\<open>b\<close> of a colour are \<open>c_r\<close>, \<open>c_g\<close>, \<open>c_b\<close>.
\<close>

datatype group = Core | Software | Infra | Data | Hardware | Ops

record rgb =
  c_r :: nat
  c_g :: nat
  c_b :: nat

text \<open>An entry of \<^verbatim>\<open>nodesData\<close>: the fields \<^verbatim>\<open>id\<close>, \<^verbatim>\<open>label\<close>, \<^verbatim>\<open>group\<close>.\<close>

record node_data =
  d_id :: string
  d_label :: string
  d_group :: group

text \<open>
  An element of \<^verbatim>\<open>nodes\<close>. The fields \<^verbatim>\<open>id\<close>, \<^verbatim>\<open>group\<close>, \<^verbatim>\<open>x\<close> and \<^verbatim>\<open>y\<close> are
  \<open>node_id\<close>, \<open>node_group\<close>, \<open>pos_x\<close> and \<open>pos_y\<close> here; the others keep their names.
\<close>

record node =
  node_id :: string
  label :: string
  node_group :: group
  pos_x :: real
  pos_y :: real
  baseX :: real
  baseY :: real
  radius :: real
  active :: bool
  pulsePhase :: real
  color :: rgb

text \<open>
  An element of \<^verbatim>\<open>edges\<close>: \<^verbatim>\<open>from\<close> and \<^verbatim>\<open>to\<close> hold what the lookup in \<^verbatim>\<open>nodeMap\<close>
  gave, an index or \<^verbatim>\<open>undefined\<close> (\<open>None\<close>).
\<close>

record edge =
  e_from :: "nat option"
  e_to :: "nat option"

datatype error = TypeError

text \<open>
  The instance. \<open>hud\<close>, \<open>raf_next\<close>, \<open>raf_pending\<close> and \<open>listening\<close> are the part of
  the browser the instance acts on: the texts handed to the three HUD elements by the
  successive calls of \<^verbatim>\<open>_updateHUD\<close> (oldest first), the next handle that
  \<^verbatim>\<open>requestAnimationFrame\<close> returns, the animation callbacks requested and neither run
  nor cancelled, and whether \<^verbatim>\<open>_bindEvents\<close> has registered the listeners.
  \<open>hoveredNode\<close> is the index of the hovered node in the array it was found in.
\<close>

record viz =
  width :: real
  height :: real
  mouse :: "real \<times> real"
  hoveredNode :: "nat option"
  animId :: "nat option"
  time :: real
  nodesData :: "node_data list"
  edgesData :: "(string \<times> string) list"
  nodes :: "node list"
  edges :: "edge list"
  hud :: "(string \<times> string \<times> string) list"
  raf_next :: nat
  raf_pending :: "nat list"
  listening :: bool

datatype outcome = Done viz | Raised error viz

fun state_of :: "outcome \<Rightarrow> viz" where
  "state_of (Done s) = s"
| "state_of (Raised e s) = s"

text \<open>Sequencing of two method calls: an error thrown by the first ends the caller.\<close>

fun and_then :: "outcome \<Rightarrow> (viz \<Rightarrow> outcome) \<Rightarrow> outcome" where
  "and_then (Done s) f = f s"
| "and_then (Raised e s) f = Raised e s"

subsection \<open>The declarations in the constructor\<close>

definition mk_data :: "string \<Rightarrow> string \<Rightarrow> group \<Rightarrow> node_data" where
  "mk_data i l gr = \<lparr>d_id = i, d_label = l, d_group = gr\<rparr>"

text \<open>The label of \<^verbatim>\<open>analytics\<close> has an accented letter, written without it here.\<close>

definition nodesData_decl :: "node_data list" where
  "nodesData_decl =
    [mk_data ''core'' ''Sistema Central'' Core,
     mk_data ''frontend'' ''Frontend'' Software,
     mk_data ''backend'' ''Backend'' Software,
     mk_data ''database'' ''Base de Datos'' Software,
     mk_data ''network'' ''Capa de Red'' Infra,
     mk_data ''security'' ''Seguridad'' Infra,
     mk_data ''ml'' ''Pipeline ML'' Data,
     mk_data ''analytics'' ''Analisis'' Data,
     mk_data ''iot'' ''Sensores IoT'' Hardware,
     mk_data ''control'' ''Unidad Control'' Hardware,
     mk_data ''monitoring'' ''Monitoreo'' Ops,
     mk_data ''deploy'' ''Despliegue'' Ops]"

definition edgesData_decl :: "(string \<times> string) list" where
  "edgesData_decl =
    [(''core'', ''frontend''), (''core'', ''backend''), (''core'', ''network''),
     (''core'', ''security''), (''core'', ''monitoring''),
     (''frontend'', ''backend''), (''backend'', ''database''),
     (''backend'', ''ml''), (''ml'', ''analytics''),
     (''network'', ''security''), (''network'', ''iot''),
     (''iot'', ''control''), (''control'', ''monitoring''),
     (''monitoring'', ''deploy''), (''deploy'', ''backend''),
     (''analytics'', ''monitoring''), (''database'', ''analytics'')]"

fun groupColors :: "group \<Rightarrow> rgb" where
  "groupColors Core = \<lparr>c_r = 0, c_g = 255, c_b = 65\<rparr>"
| "groupColors Software = \<lparr>c_r = 50, c_g = 220, c_b = 100\<rparr>"
| "groupColors Infra = \<lparr>c_r = 0, c_g = 200, c_b = 80\<rparr>"
| "groupColors Data = \<lparr>c_r = 100, c_g = 255, c_b = 50\<rparr>"
| "groupColors Hardware = \<lparr>c_r = 0, c_g = 180, c_b = 60\<rparr>"
| "groupColors Ops = \<lparr>c_r = 80, c_g = 255, c_b = 120\<rparr>"

subsection \<open>Layout and connection building\<close>

text \<open>\<^verbatim>\<open>_resize\<close>: the bounding rectangle of the canvas is an input.\<close>

definition resize :: "real \<Rightarrow> real \<Rightarrow> viz \<Rightarrow> viz" where
  "resize w h s = s\<lparr>width := w, height := h\<rparr>"

text \<open>
  \<^verbatim>\<open>_layoutNodes\<close>. The draws of \<^verbatim>\<open>Math.random()\<close> are inputs: \<open>rj i\<close> is the draw
  for the jitter of node \<open>i\<close> and \<open>rp i\<close> the draw for its phase.
\<close>

definition layout_node :: "viz \<Rightarrow> (nat \<Rightarrow> real) \<Rightarrow> (nat \<Rightarrow> real) \<Rightarrow> nat \<times> node_data \<Rightarrow> node" where
  "layout_node s rj rp p =
    (case p of (i, d) \<Rightarrow>
      let cx = width s / 2;
          cy = height s / 2 - 30;
          rad = min (width s) (height s) * 0.32;
          angle = (real i / real (length (nodesData s))) * pi * 2 - pi / 2;
          rr = (if d_group d = Core then 0 else rad);
          jitter = (if d_group d = Core then 0 else (rj i - 0.5) * 30)
      in \<lparr>node_id = d_id d, label = d_label d, node_group = d_group d,
          pos_x = cx + cos angle * (rr + jitter),
          pos_y = cy + sin angle * (rr + jitter),
          baseX = cx + cos angle * (rr + jitter),
          baseY = cy + sin angle * (rr + jitter),
          radius = (if d_group d = Core then 28 else 22),
          active = False,
          pulsePhase = rp i * pi * 2,
          color = groupColors (d_group d)\<rparr>)"

definition layoutNodes :: "(nat \<Rightarrow> real) \<Rightarrow> (nat \<Rightarrow> real) \<Rightarrow> viz \<Rightarrow> viz" where
  "layoutNodes rj rp s = s\<lparr>nodes := map (layout_node s rj rp) (enumerate 0 (nodesData s))\<rparr>"

text \<open>
  \<^verbatim>\<open>_buildEdges\<close>. \<open>nodeMap_of\<close> is the object filled by the \<^verbatim>\<open>forEach\<close>: a later
  node with the same identity overwrites the index of an earlier one. Identities are
  ordinary keys (not names of members that every object inherits).
\<close>

definition nodeMap_of :: "node list \<Rightarrow> (string \<rightharpoonup> nat)" where
  "nodeMap_of ns = foldl (\<lambda>m p. m(node_id (snd p) \<mapsto> fst p)) Map.empty (enumerate 0 ns)"

definition buildEdges :: "viz \<Rightarrow> viz" where
  "buildEdges s =
    (let nodeMap = nodeMap_of (nodes s)
     in s\<lparr>edges := map (\<lambda>p. \<lparr>e_from = nodeMap (fst p), e_to = nodeMap (snd p)\<rparr>) (edgesData s)\<rparr>)"

subsection \<open>Metrics\<close>

text \<open>\<^verbatim>\<open>this.nodes[i]\<close>: \<^verbatim>\<open>undefined\<close> for an index that is \<^verbatim>\<open>undefined\<close> or out of range.\<close>

definition node_at :: "node list \<Rightarrow> nat option \<Rightarrow> node option" where
  "node_at ns i = (case i of None \<Rightarrow> None | Some k \<Rightarrow> if k < length ns then Some (ns ! k) else None)"

text \<open>
  \<^verbatim>\<open>a.active && b.active\<close> with \<^verbatim>\<open>a = nodes[e.from]\<close>, \<^verbatim>\<open>b = nodes[e.to]\<close>: reading
  \<^verbatim>\<open>active\<close> of \<^verbatim>\<open>undefined\<close> throws, and \<^verbatim>\<open>b\<close> is read only when \<^verbatim>\<open>a.active\<close> holds.
\<close>

definition bothActive :: "node list \<Rightarrow> edge \<Rightarrow> error + bool" where
  "bothActive ns e =
    (case node_at ns (e_from e) of
       None \<Rightarrow> Inl TypeError
     | Some a \<Rightarrow>
        if \<not> active a then Inr False
        else (case node_at ns (e_to e) of
                None \<Rightarrow> Inl TypeError
              | Some c \<Rightarrow> Inr (active c)))"

text \<open>The length of \<^verbatim>\<open>edges.filter(...)\<close> with that predicate.\<close>

fun count_activeEdges :: "node list \<Rightarrow> edge list \<Rightarrow> error + nat" where
  "count_activeEdges ns [] = Inr 0"
| "count_activeEdges ns (e # es) =
    (case bothActive ns e of
       Inl err \<Rightarrow> Inl err
     | Inr ba \<Rightarrow>
        (case count_activeEdges ns es of
           Inl err \<Rightarrow> Inl err
         | Inr k \<Rightarrow> Inr (if ba then Suc k else k)))"

text \<open>Decimal notation of an integer, as a template literal prints it.\<close>

definition digit_char :: "nat \<Rightarrow> char" where
  "digit_char d = ''0123456789'' ! d"

fun dec_digits :: "nat \<Rightarrow> nat list" where
  "dec_digits n = (if n < 10 then [n] else dec_digits (n div 10) @ [n mod 10])"

definition nat_text :: "nat \<Rightarrow> string" where
  "nat_text n = map digit_char (dec_digits n)"

definition int_text :: "int \<Rightarrow> string" where
  "int_text i = (if 0 \<le> i then nat_text (nat i) else CHR ''-'' # nat_text (nat (- i)))"

text \<open>\<^verbatim>\<open>Math.round\<close>: the nearest integer, a half rounded upwards.\<close>

definition Math_round :: "real \<Rightarrow> int" where
  "Math_round v = \<lfloor>v + 1 / 2\<rfloor>"

text \<open>
  \<^verbatim>\<open>Math.round((active / total) * 100)\<close> followed by the percent sign; with no node
  the quotient \<^verbatim>\<open>0 / 0\<close> is \<^verbatim>\<open>NaN\<close> and is printed so.
\<close>

definition load_text :: "nat \<Rightarrow> nat \<Rightarrow> string" where
  "load_text a t =
    (if t = 0 then ''NaN%''
     else int_text (Math_round ((real a / real t) * 100)) @ ''%'')"

definition activeCount :: "node list \<Rightarrow> nat" where
  "activeCount ns = length (filter active ns)"

text \<open>
  \<^verbatim>\<open>_updateHUD\<close>. The three texts are computed before the first \<^verbatim>\<open>setEl\<close>, so an
  error leaves the HUD as it was. One call appends one entry to \<open>hud\<close>.
\<close>

definition updateHUD :: "viz \<Rightarrow> outcome" where
  "updateHUD s =
    (let act = activeCount (nodes s);
         total = length (nodes s)
     in case count_activeEdges (nodes s) (edges s) of
          Inl err \<Rightarrow> Raised err s
        | Inr activeEdges \<Rightarrow>
            Done (s\<lparr>hud := hud s @
              [(nat_text act @ '' / '' @ nat_text total,
                nat_text activeEdges,
                load_text act total)]\<rparr>))"

subsection \<open>Hit testing and the input handlers\<close>

text \<open>
  The test of the three loops over \<^verbatim>\<open>this.nodes\<close>:
  \<^verbatim>\<open>Math.sqrt(dx * dx + dy * dy) < node.radius + tol\<close> with \<^verbatim>\<open>dx = mx - node.x\<close>,
  \<^verbatim>\<open>dy = my - node.y\<close>. The tolerance is 5 for click and hover, 10 for touch.
\<close>

definition hit :: "real \<Rightarrow> real \<Rightarrow> real \<Rightarrow> node \<Rightarrow> bool" where
  "hit tol mx my n =
    (let dx = mx - pos_x n; dy = my - pos_y n
     in sqrt (dx * dx + dy * dy) < radius n + tol)"

definition click_tolerance :: real where
  "click_tolerance = 5"

definition touch_tolerance :: real where
  "touch_tolerance = 10"

text \<open>
  The loop of the click and touch handlers, up to its \<^verbatim>\<open>break\<close>: the node array
  with the first node that passes the test toggled, or \<open>None\<close> when the loop
  runs to its end without a hit.
\<close>

fun toggle_first :: "real \<Rightarrow> real \<Rightarrow> real \<Rightarrow> node list \<Rightarrow> node list option" where
  "toggle_first tol mx my [] = None"
| "toggle_first tol mx my (n # ns) =
    (if hit tol mx my n then Some (n\<lparr>active := \<not> active n\<rparr> # ns)
     else map_option ((#) n) (toggle_first tol mx my ns))"

text \<open>
  The body of both handlers: \<^verbatim>\<open>_updateHUD\<close> is called inside the branch of the hit,
  after the toggle.
\<close>

definition on_pointer :: "real \<Rightarrow> real \<Rightarrow> real \<Rightarrow> viz \<Rightarrow> outcome" where
  "on_pointer tol mx my s =
    (case toggle_first tol mx my (nodes s) of
       None \<Rightarrow> Done s
     | Some ns \<Rightarrow> updateHUD (s\<lparr>nodes := ns\<rparr>))"

text \<open>The loop of \<^verbatim>\<open>_updateHover\<close>, up to its \<^verbatim>\<open>return\<close>: the index of the first hit.\<close>

fun first_hit :: "real \<Rightarrow> real \<Rightarrow> real \<Rightarrow> node list \<Rightarrow> nat option" where
  "first_hit tol mx my [] = None"
| "first_hit tol mx my (n # ns) =
    (if hit tol mx my n then Some 0 else map_option Suc (first_hit tol mx my ns))"

definition updateHover :: "viz \<Rightarrow> viz" where
  "updateHover s =
    s\<lparr>hoveredNode := first_hit click_tolerance (fst (mouse s)) (snd (mouse s)) (nodes s)\<rparr>"

definition activateAll :: "viz \<Rightarrow> outcome" where
  "activateAll s = updateHUD (s\<lparr>nodes := map (\<lambda>n. n\<lparr>active := True\<rparr>) (nodes s)\<rparr>)"

definition resetAll :: "viz \<Rightarrow> outcome" where
  "resetAll s = updateHUD (s\<lparr>nodes := map (\<lambda>n. n\<lparr>active := False\<rparr>) (nodes s)\<rparr>)"

subsection \<open>The render loop\<close>

datatype stroke = Strong | Weak | Neutral

text \<open>
  The style that \<^verbatim>\<open>_drawEdges\<close> chooses for one edge. \<^verbatim>\<open>eitherActive\<close> is
  \<^verbatim>\<open>a.active || b.active\<close>, which reads \<^verbatim>\<open>b\<close> when \<^verbatim>\<open>a.active\<close> is false.
\<close>

definition edge_stroke :: "node list \<Rightarrow> edge \<Rightarrow> error + stroke" where
  "edge_stroke ns e =
    (case bothActive ns e of
       Inl err \<Rightarrow> Inl err
     | Inr ba \<Rightarrow>
        (case node_at ns (e_from e) of
           None \<Rightarrow> Inl TypeError
         | Some a \<Rightarrow>
            if active a then Inr (if ba then Strong else Weak)
            else (case node_at ns (e_to e) of
                    None \<Rightarrow> Inl TypeError
                  | Some c \<Rightarrow> Inr (if ba then Strong else if active c then Weak else Neutral))))"

fun drawEdges :: "node list \<Rightarrow> edge list \<Rightarrow> error + stroke list" where
  "drawEdges ns [] = Inr []"
| "drawEdges ns (e # es) =
    (case edge_stroke ns e of
       Inl err \<Rightarrow> Inl err
     | Inr st \<Rightarrow>
        (case drawEdges ns es of
           Inl err \<Rightarrow> Inl err
         | Inr sts \<Rightarrow> Inr (st # sts)))"

text \<open>\<^verbatim>\<open>_drawNodes\<close>: the floating motion is the only write to the instance.\<close>

definition float_node :: "real \<Rightarrow> node \<Rightarrow> node" where
  "float_node t n =
    n\<lparr>pos_x := baseX n + sin (t + pulsePhase n) * 3,
      pos_y := baseY n + cos (t * 0.8 + pulsePhase n) * 3\<rparr>"

definition drawNodes :: "viz \<Rightarrow> viz" where
  "drawNodes s = s\<lparr>nodes := map (float_node (time s)) (nodes s)\<rparr>"

text \<open>\<^verbatim>\<open>requestAnimationFrame\<close>: a fresh handle, and the callback is pending.\<close>

definition requestAnimationFrame :: "viz \<Rightarrow> viz" where
  "requestAnimationFrame s =
    s\<lparr>animId := Some (raf_next s),
      raf_pending := raf_pending s @ [raf_next s],
      raf_next := Suc (raf_next s)\<rparr>"

definition cancelAnimationFrame :: "nat \<Rightarrow> viz \<Rightarrow> viz" where
  "cancelAnimationFrame k s = s\<lparr>raf_pending := removeAll k (raf_pending s)\<rparr>"

definition animate :: "viz \<Rightarrow> outcome" where
  "animate s =
    (let s1 = s\<lparr>time := time s + 0.015\<rparr>
     in case drawEdges (nodes s1) (edges s1) of
          Inl err \<Rightarrow> Raised err s1
        | Inr sts \<Rightarrow> Done (requestAnimationFrame (drawNodes s1)))"

text \<open>\<^verbatim>\<open>destroy\<close>: \<^verbatim>\<open>if (this.animId)\<close> is false for \<^verbatim>\<open>undefined\<close>, \<^verbatim>\<open>null\<close> and 0.\<close>

definition destroy :: "viz \<Rightarrow> viz" where
  "destroy s =
    (case animId s of
       None \<Rightarrow> s
     | Some k \<Rightarrow> if k = 0 then s else cancelAnimationFrame k s)"

subsection \<open>Construction\<close>

text \<open>
  \<^verbatim>\<open>_bindEvents\<close> registers the listeners and ends with \<^verbatim>\<open>_updateHUD\<close>;
  \<^verbatim>\<open>_init\<close> runs the five steps in order.
\<close>

definition bindEvents :: "viz \<Rightarrow> outcome" where
  "bindEvents s = updateHUD (s\<lparr>listening := True\<rparr>)"

definition init :: "real \<Rightarrow> real \<Rightarrow> (nat \<Rightarrow> real) \<Rightarrow> (nat \<Rightarrow> real) \<Rightarrow> viz \<Rightarrow> outcome" where
  "init w h rj rp s =
    and_then (bindEvents (buildEdges (layoutNodes rj rp (resize w h s)))) animate"

text \<open>An instance before the constructor has assigned anything.\<close>

definition blank :: viz where
  "blank = \<lparr>width = 0, height = 0, mouse = (0, 0), hoveredNode = None, animId = None,
            time = 0, nodesData = [], edgesData = [], nodes = [], edges = [],
            hud = [], raf_next = 1, raf_pending = [], listening = False\<rparr>"

text \<open>
  The constructor. \<open>found\<close> says whether the canvas element exists: without it the
  constructor returns at once. \<open>w\<close>, \<open>h\<close> are the size of the canvas and \<open>rj\<close>, \<open>rp\<close>
  the random draws of the first layout.
\<close>

definition SystemViz :: "bool \<Rightarrow> real \<Rightarrow> real \<Rightarrow> (nat \<Rightarrow> real) \<Rightarrow> (nat \<Rightarrow> real) \<Rightarrow> outcome" where
  "SystemViz found w h rj rp =
    (if \<not> found then Done blank
     else init w h rj rp
       (blank\<lparr>mouse := (- 1000, - 1000), hoveredNode := None, animId := None, time := 0,
              nodesData := nodesData_decl, edgesData := edgesData_decl,
              nodes := [], edges := []\<rparr>))"

subsection \<open>Events\<close>

text \<open>
  What can happen to an instance: the browser delivers an input event to a listener,
  runs the pending animation callback, or the host calls \<^verbatim>\<open>destroy\<close>. Pointer
  coordinates are relative to the canvas. A resize carries the new size of the canvas
  and the random draws of the new layout.
\<close>

datatype event =
    Resize real real "nat \<Rightarrow> real" "nat \<Rightarrow> real"
  | MouseMove real real
  | MouseLeave
  | Click real real
  | TouchStart real real
  | ActivateAllClick
  | ResetAllClick
  | Frame
  | Destroy

fun dispatch :: "event \<Rightarrow> viz \<Rightarrow> outcome" where
  "dispatch (Resize w h rj rp) s = Done (buildEdges (layoutNodes rj rp (resize w h s)))"
| "dispatch (MouseMove mx my) s = Done (updateHover (s\<lparr>mouse := (mx, my)\<rparr>))"
| "dispatch MouseLeave s = Done (s\<lparr>mouse := (- 1000, - 1000), hoveredNode := None\<rparr>)"
| "dispatch (Click mx my) s = on_pointer click_tolerance mx my s"
| "dispatch (TouchStart mx my) s = on_pointer touch_tolerance mx my s"
| "dispatch ActivateAllClick s = activateAll s"
| "dispatch ResetAllClick s = resetAll s"
| "dispatch Frame s =
    (case raf_pending s of
       [] \<Rightarrow> Done s
     | k # ks \<Rightarrow> animate (s\<lparr>raf_pending := ks\<rparr>))"
| "dispatch Destroy s = Done (destroy s)"

text \<open>
  An input event reaches the instance only through a registered listener;
  \<^verbatim>\<open>destroy\<close> is a method call and needs none.
\<close>

definition handle :: "event \<Rightarrow> viz \<Rightarrow> outcome" where
  "handle ev s = (if ev \<noteq> Destroy \<and> ev \<noteq> Frame \<and> \<not> listening s then Done s else dispatch ev s)"

fun run :: "event list \<Rightarrow> viz \<Rightarrow> viz" where
  "run [] s = s"
| "run (ev # evs) s = run evs (state_of (handle ev s))"

text \<open>The states of an instance whose canvas exists.\<close>

inductive reachable :: "viz \<Rightarrow> bool" where
  constructed: "reachable (state_of (SystemViz True w h rj rp))"
| event: "reachable s \<Longrightarrow> reachable (state_of (handle ev s))"

subsection \<open>Resolved connections\<close>

text \<open>
  Both endpoints of a connection resolve to a node of the array; and, for such a
  connection, both of these nodes are active. These are the notions the properties
  below are stated with; the code has no such test.
\<close>

definition edge_ok :: "node list \<Rightarrow> edge \<Rightarrow> bool" where
  "edge_ok ns e =
    (case node_at ns (e_from e) of
       None \<Rightarrow> False
     | Some a \<Rightarrow> (case node_at ns (e_to e) of None \<Rightarrow> False | Some c \<Rightarrow> True))"

definition edges_ok :: "node list \<Rightarrow> edge list \<Rightarrow> bool" where
  "edges_ok ns es = list_all (edge_ok ns) es"

definition endpoints_active :: "node list \<Rightarrow> edge \<Rightarrow> bool" where
  "endpoints_active ns e =
    (case node_at ns (e_from e) of
       None \<Rightarrow> False
     | Some a \<Rightarrow> (case node_at ns (e_to e) of None \<Rightarrow> False | Some c \<Rightarrow> active a \<and> active c))"

text \<open>The declared connections as index pairs into the declared nodes.\<close>

definition edges_resolved :: "edge list" where
  "edges_resolved =
    map (\<lambda>p. \<lparr>e_from = Some (fst p), e_to = Some (snd p)\<rparr>)
      [(0, 1), (0, 2), (0, 4), (0, 5), (0, 10), (1, 2), (2, 3), (2, 6), (6, 7),
       (4, 5), (4, 8), (8, 9), (9, 10), (10, 11), (11, 2), (7, 10), (3, 7)]"

text \<open>
  What holds of every state of a constructed instance: the declarations are the
  constructor's, the nodes carry the declared identities, labels and groups in their
  order, with the radius and the colour of their group, the
  connections are the resolved ones, the listeners are registered, and a pending
  animation callback is the one whose handle \<open>animId\<close> holds.
\<close>

definition node_static :: "node \<Rightarrow> string \<times> string \<times> group \<times> real \<times> rgb" where
  "node_static n = (node_id n, label n, node_group n, radius n, color n)"

definition decl_static :: "node_data \<Rightarrow> string \<times> string \<times> group \<times> real \<times> rgb" where
  "decl_static d =
    (d_id d, d_label d, d_group d, if d_group d = Core then 28 else 22, groupColors (d_group d))"

definition well_formed :: "viz \<Rightarrow> bool" where
  "well_formed s =
    (nodesData s = nodesData_decl \<and> edgesData s = edgesData_decl \<and>
     map node_static (nodes s) = map decl_static nodesData_decl \<and>
     edges s = edges_resolved \<and> listening s \<and> 0 < raf_next s \<and>
     length (raf_pending s) \<le> 1 \<and> set (raf_pending s) \<subseteq> set_option (animId s) \<and>
     animId s \<noteq> Some 0)"

text \<open>
  Random draws for the examples: every draw one half (which gives no jitter), and
  every draw zero.
\<close>

definition draws_half :: "nat \<Rightarrow> real" where
  "draws_half i = 1 / 2"

definition draws_zero :: "nat \<Rightarrow> real" where
  "draws_zero i = 0"

text \<open>An example: the instance constructed on a canvas of 800 by 600.\<close>

definition example_viz :: viz where
  "example_viz = state_of (SystemViz True 800 600 draws_half draws_zero)"

text \<open>
  The metrics snapshot: the triple of texts for given nodes and resolved connections,
  with the connections counted by \<open>endpoints_active\<close>.
\<close>

definition snapshot :: "node list \<Rightarrow> edge list \<Rightarrow> string \<times> string \<times> string" where
  "snapshot ns es =
    (nat_text (activeCount ns) @ '' / '' @ nat_text (length ns),
     nat_text (length (filter (endpoints_active ns) es)),
     load_text (activeCount ns) (length ns))"


text \<open>
  An instance whose declared connections name an identity that no node has, before
  layout and connection building.
\<close>

definition ghost_config :: viz where
  "ghost_config = blank\<lparr>nodesData := nodesData_decl, edgesData := [(''core'', ''ghost'')]\<rparr>"

text \<open>A node before and after an event whose \<open>active\<close> flag differs.\<close>

definition flipped :: "node \<times> node \<Rightarrow> bool" where
  "flipped p = (active (fst p) \<noteq> active (snd p))"

text \<open>
  The example after its canvas has shrunk to nothing, with draws that give no jitter:
  the layout puts all twelve nodes on one point.
\<close>

definition collapsed_viz :: viz where
  "collapsed_viz = state_of (handle (Resize 0 0 draws_half draws_zero) example_viz)"

section \<open>Properties\<close>

subsection \<open>The identity map of connection building\<close>

declare dec_digits.simps [simp del]

lemma enumerate_snoc: "enumerate k (xs @ [x]) = enumerate k xs @ [(k + length xs, x)]"
  by (induction xs arbitrary: k) auto

lemma nodeMap_of_Nil: "nodeMap_of [] = Map.empty"
  by (simp add: nodeMap_of_def)

lemma nodeMap_of_snoc:
  "nodeMap_of (ns @ [n]) = (nodeMap_of ns)(node_id n \<mapsto> length ns)"
  by (simp add: nodeMap_of_def enumerate_snoc)

lemma nodeMap_of_None: "(nodeMap_of ns k = None) = (k \<notin> node_id ` set ns)"
  by (induction ns rule: rev_induct) (auto simp: nodeMap_of_Nil nodeMap_of_snoc)

lemma nodeMap_of_Some:
  "nodeMap_of ns k = Some i \<Longrightarrow> i < length ns \<and> node_id (ns ! i) = k"
proof (induction ns arbitrary: i rule: rev_induct)
  case Nil
  then show ?case by (simp add: nodeMap_of_Nil)
next
  case (snoc n ns)
  show ?case
  proof (cases "node_id n = k")
    case True
    with snoc.prems show ?thesis by (auto simp: nodeMap_of_snoc nth_append)
  next
    case False
    with snoc.prems have "nodeMap_of ns k = Some i" by (simp add: nodeMap_of_snoc)
    from snoc.IH [OF this] show ?thesis by (simp add: nth_append)
  qed
qed

text \<open>The map depends on the identities only, in their order.\<close>

lemma nodeMap_of_ids:
  "nodeMap_of ns = foldl (\<lambda>m p. m(snd p \<mapsto> fst p)) Map.empty (enumerate 0 (map node_id ns))"
proof (induction ns rule: rev_induct)
  case Nil
  show ?case by (simp add: nodeMap_of_Nil)
next
  case (snoc n ns)
  have "enumerate 0 (map node_id (ns @ [n])) =
        enumerate 0 (map node_id ns) @ [(length ns, node_id n)]"
    by (simp add: enumerate_snoc)
  then show ?case
    by (simp only: nodeMap_of_snoc snoc.IH foldl_append foldl.simps fst_conv snd_conv)
qed

subsection \<open>Metrics and strokes on resolved connections\<close>

lemma bothActive_ok: "edge_ok ns e \<Longrightarrow> bothActive ns e = Inr (endpoints_active ns e)"
  by (auto simp: edge_ok_def bothActive_def endpoints_active_def split: option.splits)

lemma count_activeEdges_ok:
  "edges_ok ns es \<Longrightarrow> count_activeEdges ns es = Inr (length (filter (endpoints_active ns) es))"
  by (induction es) (auto simp: edges_ok_def bothActive_ok)

lemma edge_stroke_ok:
  "edge_ok ns e \<Longrightarrow>
    edge_stroke ns e =
      Inr (if endpoints_active ns e then Strong
           else if (\<exists>a. node_at ns (e_from e) = Some a \<and> active a) \<or>
                   (\<exists>c. node_at ns (e_to e) = Some c \<and> active c) then Weak else Neutral)"
  by (auto simp: edge_ok_def edge_stroke_def bothActive_def endpoints_active_def split: option.splits)

lemma drawEdges_ok: "edges_ok ns es \<Longrightarrow> \<exists>sts. drawEdges ns es = Inr sts"
  by (induction es) (auto simp: edges_ok_def edge_stroke_ok)

lemma edge_ok_length: "length ms = length ns \<Longrightarrow> edge_ok ms e = edge_ok ns e"
  by (simp add: edge_ok_def node_at_def split: option.splits)

lemma edges_ok_length: "length ms = length ns \<Longrightarrow> edges_ok ms es = edges_ok ns es"
  by (simp add: edges_ok_def list_all_iff edge_ok_length [of ms ns])

lemma updateHUD_ok:
  "edges_ok (nodes s) (edges s) \<Longrightarrow>
    updateHUD s =
      Done (s\<lparr>hud := hud s @
        [(nat_text (activeCount (nodes s)) @ '' / '' @ nat_text (length (nodes s)),
          nat_text (length (filter (endpoints_active (nodes s)) (edges s))),
          load_text (activeCount (nodes s)) (length (nodes s)))]\<rparr>)"
  by (simp add: updateHUD_def Let_def count_activeEdges_ok)

subsection \<open>Layout\<close>

lemma static_layout_node: "node_static (layout_node s rj rp p) = decl_static (snd p)"
  by (cases p) (simp add: layout_node_def Let_def node_static_def decl_static_def)

lemma active_layout_node: "active (layout_node s rj rp p) = False"
  by (cases p) (simp add: layout_node_def Let_def)

lemma static_layoutNodes:
  "map node_static (nodes (layoutNodes rj rp s)) = map decl_static (nodesData s)"
proof -
  have "map node_static (nodes (layoutNodes rj rp s)) =
        map (decl_static \<circ> snd) (enumerate 0 (nodesData s))"
    by (simp add: layoutNodes_def static_layout_node comp_def)
  also have "\<dots> = map decl_static (map snd (enumerate 0 (nodesData s)))"
    by (simp only: map_map)
  finally show ?thesis by (simp only: map_snd_enumerate)
qed

lemma ids_of_static:
  assumes "map node_static ns = map decl_static ds"
  shows "map node_id ns = map d_id ds"
proof -
  have "map node_id ns = map fst (map node_static ns)"
    by (simp add: node_static_def comp_def)
  also have "\<dots> = map fst (map decl_static ds)"
    by (simp only: assms)
  also have "\<dots> = map d_id ds"
    by (simp add: decl_static_def comp_def)
  finally show ?thesis .
qed

lemma radius_of_static:
  assumes "map node_static ns = map decl_static ds" and "n \<in> set ns"
  shows "radius n = 28 \<or> radius n = 22"
proof -
  from assms(2) have "node_static n \<in> set (map node_static ns)" by simp
  then have "node_static n \<in> set (map decl_static ds)" by (simp only: assms(1))
  then obtain d where "node_static n = decl_static d" by auto
  then show ?thesis by (simp add: node_static_def decl_static_def split: if_splits)
qed

lemma length_layoutNodes: "length (nodes (layoutNodes rj rp s)) = length (nodesData s)"
  by (simp add: layoutNodes_def)

lemma inactive_layoutNodes: "n \<in> set (nodes (layoutNodes rj rp s)) \<Longrightarrow> \<not> active n"
  by (auto simp: layoutNodes_def active_layout_node)

lemma nodeMap_decl:
  assumes "map node_id ns = map d_id nodesData_decl"
  shows "map (\<lambda>p. \<lparr>e_from = nodeMap_of ns (fst p), e_to = nodeMap_of ns (snd p)\<rparr>) edgesData_decl
         = edges_resolved"
  unfolding nodeMap_of_ids assms
  by (simp add: nodesData_decl_def mk_data_def edgesData_decl_def edges_resolved_def)

lemma edges_ok_resolved: "length ns = 12 \<Longrightarrow> edges_ok ns edges_resolved"
  by (simp add: edges_ok_def edge_ok_def edges_resolved_def node_at_def)

subsection \<open>The invariant of a constructed instance\<close>

lemma length_decl: "map node_id ns = map d_id nodesData_decl \<Longrightarrow> length ns = 12"
proof -
  assume "map node_id ns = map d_id nodesData_decl"
  then have "length (map node_id ns) = length (map d_id nodesData_decl)" by simp
  then show ?thesis by (simp add: nodesData_decl_def)
qed

lemma well_formed_ids: "well_formed s \<Longrightarrow> map node_id (nodes s) = map d_id nodesData_decl"
  by (simp add: well_formed_def ids_of_static)

lemma well_formed_length: "well_formed s \<Longrightarrow> length (nodes s) = 12"
  by (simp add: well_formed_ids length_decl)

lemma well_formed_edges_ok: "well_formed s \<Longrightarrow> edges_ok (nodes s) (edges s)"
  using well_formed_length [of s] by (simp add: well_formed_def edges_ok_resolved)

lemma static_float_node: "node_static (float_node t n) = node_static n"
  by (simp add: node_static_def float_node_def)

lemma static_active_upd: "node_static (n\<lparr>active := v\<rparr>) = node_static n"
  by (simp add: node_static_def)

lemma active_float_node: "active (float_node t n) = active n"
  by (simp add: float_node_def)

lemma toggle_first_static:
  "toggle_first tol mx my ns = Some ms \<Longrightarrow> map node_static ms = map node_static ns"
  by (induction ns arbitrary: ms) (auto simp: static_active_upd split: if_splits)

lemma first_hit_None: "(first_hit tol mx my ns = None) = (\<forall>n\<in>set ns. \<not> hit tol mx my n)"
  by (induction ns) auto

lemma first_hit_Some:
  "(first_hit tol mx my ns = Some i) =
    (i < length ns \<and> hit tol mx my (ns ! i) \<and> (\<forall>j<i. \<not> hit tol mx my (ns ! j)))"
proof (induction ns arbitrary: i)
  case Nil
  show ?case by simp
next
  case (Cons n ns)
  show ?case
  proof (cases "hit tol mx my n")
    case True
    then show ?thesis by (cases i) auto
  next
    case False
    show ?thesis
    proof (cases i)
      case 0
      with False show ?thesis by auto
    next
      case (Suc k)
      have "(\<forall>j<Suc k. \<not> hit tol mx my ((n # ns) ! j)) = (\<forall>j<k. \<not> hit tol mx my (ns ! j))"
        using False by (auto simp: less_Suc_eq_0_disj)
      with False Suc Cons.IH [of k] show ?thesis by auto
    qed
  qed
qed

lemma toggle_first_first_hit:
  "toggle_first tol mx my ns =
    (case first_hit tol mx my ns of
       None \<Rightarrow> None
     | Some i \<Rightarrow> Some (ns[i := (ns ! i)\<lparr>active := \<not> active (ns ! i)\<rparr>]))"
  by (induction ns) (auto split: option.splits)

lemma well_formed_nodes_upd:
  "well_formed s \<Longrightarrow> map node_static ms = map node_static (nodes s) \<Longrightarrow>
    well_formed (s\<lparr>nodes := ms\<rparr>)"
  by (simp add: well_formed_def)

lemma well_formed_hud_upd: "well_formed s \<Longrightarrow> well_formed (s\<lparr>hud := h\<rparr>)"
  by (simp add: well_formed_def)

lemma updateHUD_well_formed:
  "well_formed s \<Longrightarrow> \<exists>s'. updateHUD s = Done s' \<and> well_formed s'"
  by (simp add: updateHUD_ok well_formed_edges_ok well_formed_hud_upd)

lemma on_pointer_well_formed:
  "well_formed s \<Longrightarrow> \<exists>s'. on_pointer tol mx my s = Done s' \<and> well_formed s'"
  by (auto simp: on_pointer_def split: option.splits
      intro!: updateHUD_well_formed well_formed_nodes_upd dest: toggle_first_static)

lemma activateAll_well_formed:
  "well_formed s \<Longrightarrow> \<exists>s'. activateAll s = Done s' \<and> well_formed s'"
  unfolding activateAll_def
  by (rule updateHUD_well_formed, rule well_formed_nodes_upd) (simp_all add: comp_def static_active_upd)

lemma resetAll_well_formed:
  "well_formed s \<Longrightarrow> \<exists>s'. resetAll s = Done s' \<and> well_formed s'"
  unfolding resetAll_def
  by (rule updateHUD_well_formed, rule well_formed_nodes_upd) (simp_all add: comp_def static_active_upd)

lemma buildEdges_fields:
  "nodes (buildEdges s) = nodes s" "nodesData (buildEdges s) = nodesData s"
  "edgesData (buildEdges s) = edgesData s" "listening (buildEdges s) = listening s"
  "raf_next (buildEdges s) = raf_next s" "raf_pending (buildEdges s) = raf_pending s"
  "animId (buildEdges s) = animId s" "hud (buildEdges s) = hud s" "time (buildEdges s) = time s"
  by (simp_all add: buildEdges_def Let_def)

lemma layoutNodes_fields:
  "edges (layoutNodes rj rp s) = edges s" "nodesData (layoutNodes rj rp s) = nodesData s"
  "edgesData (layoutNodes rj rp s) = edgesData s" "listening (layoutNodes rj rp s) = listening s"
  "raf_next (layoutNodes rj rp s) = raf_next s" "raf_pending (layoutNodes rj rp s) = raf_pending s"
  "animId (layoutNodes rj rp s) = animId s" "hud (layoutNodes rj rp s) = hud s"
  "time (layoutNodes rj rp s) = time s"
  by (simp_all add: layoutNodes_def)

lemma resize_fields:
  "nodes (resize w h s) = nodes s" "edges (resize w h s) = edges s"
  "nodesData (resize w h s) = nodesData s"
  "edgesData (resize w h s) = edgesData s" "listening (resize w h s) = listening s"
  "raf_next (resize w h s) = raf_next s" "raf_pending (resize w h s) = raf_pending s"
  "animId (resize w h s) = animId s" "hud (resize w h s) = hud s" "time (resize w h s) = time s"
  by (simp_all add: resize_def)

lemmas relayout_fields = buildEdges_fields layoutNodes_fields resize_fields

lemma relayout_edges:
  assumes "nodesData s = nodesData_decl" and "edgesData s = edgesData_decl"
  shows "edges (buildEdges (layoutNodes rj rp (resize w h s))) = edges_resolved"
proof -
  let ?t = "layoutNodes rj rp (resize w h s)"
  have ids: "map node_id (nodes ?t) = map d_id nodesData_decl"
    using assms by (simp add: static_layoutNodes ids_of_static relayout_fields)
  have "edges (buildEdges ?t) =
        map (\<lambda>p. \<lparr>e_from = nodeMap_of (nodes ?t) (fst p), e_to = nodeMap_of (nodes ?t) (snd p)\<rparr>)
          edgesData_decl"
    using assms by (simp add: buildEdges_def Let_def relayout_fields)
  then show ?thesis by (simp only: nodeMap_decl [OF ids])
qed

lemma relayout_well_formed:
  assumes "well_formed s"
  shows "well_formed (buildEdges (layoutNodes rj rp (resize w h s)))"
proof -
  from assms have d: "nodesData s = nodesData_decl" "edgesData s = edgesData_decl"
    by (simp_all add: well_formed_def)
  have "map node_static (nodes (buildEdges (layoutNodes rj rp (resize w h s)))) =
        map decl_static nodesData_decl"
    using d by (simp add: static_layoutNodes relayout_fields)
  with assms relayout_edges [OF d] show ?thesis
    by (simp add: well_formed_def relayout_fields)
qed

lemma animate_well_formed:
  assumes "well_formed s" and "raf_pending s = []"
  shows "\<exists>s'. animate s = Done s' \<and> well_formed s'"
proof -
  from assms(1) have "edges_ok (nodes s) (edges s)" by (rule well_formed_edges_ok)
  then obtain sts where "drawEdges (nodes s) (edges s) = Inr sts"
    using drawEdges_ok by blast
  then have "animate s = Done (requestAnimationFrame (drawNodes (s\<lparr>time := time s + 0.015\<rparr>)))"
    by (simp add: animate_def)
  moreover have "well_formed (requestAnimationFrame (drawNodes (s\<lparr>time := time s + 0.015\<rparr>)))"
    using assms
    by (simp add: well_formed_def requestAnimationFrame_def drawNodes_def comp_def
        static_float_node)
  ultimately show ?thesis by simp
qed


lemma well_formed_pending_Nil: "well_formed s \<Longrightarrow> well_formed (s\<lparr>raf_pending := []\<rparr>)"
  by (simp add: well_formed_def)

lemma destroy_well_formed: "well_formed s \<Longrightarrow> well_formed (destroy s)"
  by (cases "raf_pending s") (auto simp: well_formed_def destroy_def cancelAnimationFrame_def split: option.splits)

lemma destroy_pending: "well_formed s \<Longrightarrow> raf_pending (destroy s) = []"
  by (cases "raf_pending s") (auto simp: well_formed_def destroy_def cancelAnimationFrame_def split: option.splits)

lemma frame_well_formed:
  assumes "well_formed s"
  shows "\<exists>s'. dispatch Frame s = Done s' \<and> well_formed s'"
proof (cases "raf_pending s")
  case Nil
  with assms show ?thesis by simp
next
  case (Cons k ks)
  have "well_formed (s\<lparr>raf_pending := []\<rparr>)" using assms by (rule well_formed_pending_Nil)
  moreover have "ks = []" using assms Cons by (simp add: well_formed_def)
  ultimately show ?thesis using Cons animate_well_formed [of "s\<lparr>raf_pending := []\<rparr>"] by simp
qed

lemma handle_well_formed:
  assumes "well_formed s"
  shows "\<exists>s'. handle ev s = Done s' \<and> well_formed s'"
proof -
  from assms have l: "listening s" by (simp add: well_formed_def)
  have "\<exists>s'. dispatch ev s = Done s' \<and> well_formed s'"
  proof (cases ev)
    case (Resize w h rj rp)
    with assms show ?thesis by (simp add: relayout_well_formed)
  next
    case (MouseMove mx my)
    with assms show ?thesis by (simp add: updateHover_def well_formed_def)
  next
    case MouseLeave
    with assms show ?thesis by (simp add: well_formed_def)
  next
    case (Click mx my)
    with assms show ?thesis by (simp add: on_pointer_well_formed)
  next
    case (TouchStart mx my)
    with assms show ?thesis by (simp add: on_pointer_well_formed)
  next
    case ActivateAllClick
    with assms show ?thesis by (simp add: activateAll_well_formed)
  next
    case ResetAllClick
    with assms show ?thesis by (simp add: resetAll_well_formed)
  next
    case Frame
    with assms show ?thesis using frame_well_formed by simp
  next
    case Destroy
    with assms show ?thesis by (simp add: destroy_well_formed)
  qed
  with l show ?thesis by (simp add: handle_def)
qed

subsection \<open>Construction\<close>

lemma node_at_set: "node_at ns i = Some a \<Longrightarrow> a \<in> set ns"
  by (auto simp: node_at_def split: option.splits if_splits)

lemma endpoints_active_inactive:
  "\<forall>n\<in>set ns. \<not> active n \<Longrightarrow> \<not> endpoints_active ns e"
  by (auto simp: endpoints_active_def split: option.splits dest: node_at_set)

lemma filter_endpoints_inactive:
  "\<forall>n\<in>set ns. \<not> active n \<Longrightarrow> filter (endpoints_active ns) es = []"
  by (simp add: endpoints_active_inactive)

lemma activeCount_inactive: "\<forall>n\<in>set ns. \<not> active n \<Longrightarrow> activeCount ns = 0"
  by (simp add: activeCount_def)

lemma nat_text_0: "nat_text 0 = ''0''"
  by (simp add: nat_text_def dec_digits.simps digit_char_def)

lemma load_text_0: "0 < t \<Longrightarrow> load_text 0 t = ''0%''"
  by (simp add: load_text_def Math_round_def int_text_def nat_text_0)

lemma buildEdges_edges_ok:
  assumes "\<forall>p\<in>set (edgesData s). fst p \<in> node_id ` set (nodes s) \<and> snd p \<in> node_id ` set (nodes s)"
  shows "edges_ok (nodes s) (edges (buildEdges s))"
proof -
  have "edge_ok (nodes s) \<lparr>e_from = nodeMap_of (nodes s) (fst p), e_to = nodeMap_of (nodes s) (snd p)\<rparr>"
    if "p \<in> set (edgesData s)" for p
  proof -
    from assms that have "nodeMap_of (nodes s) (fst p) \<noteq> None" "nodeMap_of (nodes s) (snd p) \<noteq> None"
      by (simp_all add: nodeMap_of_None)
    then obtain i j where ij: "nodeMap_of (nodes s) (fst p) = Some i" "nodeMap_of (nodes s) (snd p) = Some j"
      by auto
    then have "i < length (nodes s)" "j < length (nodes s)"
      by (simp_all add: nodeMap_of_Some)
    with ij show ?thesis by (simp add: edge_ok_def node_at_def)
  qed
  then show ?thesis by (simp add: edges_ok_def buildEdges_def Let_def list_all_iff)
qed

lemma animate_ok:
  assumes "edges_ok (nodes s) (edges s)"
  shows "animate s = Done (requestAnimationFrame (drawNodes (s\<lparr>time := time s + 0.015\<rparr>)))"
proof -
  from assms obtain sts where "drawEdges (nodes s) (edges s) = Inr sts"
    using drawEdges_ok by blast
  then show ?thesis by (simp add: animate_def)
qed

text \<open>The instance that \<open>init\<close> returns, written out.\<close>

lemma init_eq:
  assumes ne: "nodesData s0 \<noteq> []"
    and ed: "\<forall>p\<in>set (edgesData s0).
              fst p \<in> d_id ` set (nodesData s0) \<and> snd p \<in> d_id ` set (nodesData s0)"
  shows "init w h rj rp s0 =
    Done (requestAnimationFrame (drawNodes
      ((buildEdges (layoutNodes rj rp (resize w h s0)))
        \<lparr>listening := True,
         hud := hud s0 @ [(''0 / '' @ nat_text (length (nodesData s0)), ''0'', ''0%'')],
         time := time s0 + 0.015\<rparr>)))"
proof -
  let ?l = "layoutNodes rj rp (resize w h s0)"
  let ?b = "buildEdges ?l"
  let ?t = "?b\<lparr>listening := True\<rparr>"
  have st: "map node_static (nodes ?l) = map decl_static (nodesData s0)"
    by (simp add: static_layoutNodes relayout_fields)
  then have ids: "map node_id (nodes ?l) = map d_id (nodesData s0)"
    by (rule ids_of_static)
  have "node_id ` set (nodes ?l) = set (map node_id (nodes ?l))" by simp
  also have "\<dots> = d_id ` set (nodesData s0)" by (simp only: ids) simp
  finally have idset: "node_id ` set (nodes ?l) = d_id ` set (nodesData s0)" .
  have "edges_ok (nodes ?l) (edges ?b)"
    by (rule buildEdges_edges_ok) (simp add: idset relayout_fields ed)
  then have ok: "edges_ok (nodes ?t) (edges ?t)"
    by (simp add: relayout_fields)
  have nt: "nodes ?t = nodes ?l" "edges ?t = edges ?b" "hud ?t = hud s0"
    by (simp_all add: relayout_fields)
  have inact: "\<forall>n\<in>set (nodes ?l). \<not> active n"
    by (simp add: inactive_layoutNodes)
  have len: "length (nodes ?l) = length (nodesData s0)"
    by (simp add: relayout_fields length_layoutNodes)
  with ne have pos: "0 < length (nodesData s0)" by simp
  let ?u = "?t\<lparr>hud := hud s0 @ [(''0 / '' @ nat_text (length (nodesData s0)), ''0'', ''0%'')]\<rparr>"
  have "updateHUD ?t = Done ?u"
    unfolding updateHUD_ok [OF ok] nt activeCount_inactive [OF inact]
      filter_endpoints_inactive [OF inact] len load_text_0 [OF pos]
    by (simp add: nat_text_0)
  then have b: "bindEvents ?b = Done ?u"
    by (simp add: bindEvents_def)
  have oku: "edges_ok (nodes ?u) (edges ?u)" using ok by simp
  have "init w h rj rp s0 = Done (requestAnimationFrame (drawNodes (?u\<lparr>time := time ?u + 0.015\<rparr>)))"
    unfolding init_def b and_then.simps by (rule animate_ok [OF oku])
  then show ?thesis by (simp add: relayout_fields)
qed

lemma drawn_fields:
  "nodes (requestAnimationFrame (drawNodes s)) = map (float_node (time s)) (nodes s)"
  "edges (requestAnimationFrame (drawNodes s)) = edges s"
  "hud (requestAnimationFrame (drawNodes s)) = hud s"
  "nodesData (requestAnimationFrame (drawNodes s)) = nodesData s"
  "edgesData (requestAnimationFrame (drawNodes s)) = edgesData s"
  "listening (requestAnimationFrame (drawNodes s)) = listening s"
  "animId (requestAnimationFrame (drawNodes s)) = Some (raf_next s)"
  "raf_pending (requestAnimationFrame (drawNodes s)) = raf_pending s @ [raf_next s]"
  "raf_next (requestAnimationFrame (drawNodes s)) = Suc (raf_next s)"
  by (simp_all add: requestAnimationFrame_def drawNodes_def)

lemma decl_valid:
  "nodesData_decl \<noteq> []"
  "\<forall>p\<in>set edgesData_decl. fst p \<in> d_id ` set nodesData_decl \<and> snd p \<in> d_id ` set nodesData_decl"
  by (simp_all add: nodesData_decl_def edgesData_decl_def mk_data_def)

lemma length_decls: "length nodesData_decl = 12" "length edgesData_decl = 17"
  by (simp_all add: nodesData_decl_def edgesData_decl_def)

lemma nat_text_12: "nat_text 12 = ''12''"
  by (simp add: nat_text_def dec_digits.simps digit_char_def)

text \<open>The instance that the constructor returns when the canvas exists.\<close>

lemma constructed_eq:
  "SystemViz True w h rj rp =
    Done (requestAnimationFrame (drawNodes
      ((buildEdges (layoutNodes rj rp (resize w h
          (blank\<lparr>mouse := (- 1000, - 1000), nodesData := nodesData_decl,
                 edgesData := edgesData_decl\<rparr>))))
        \<lparr>listening := True, hud := [(''0 / 12'', ''0'', ''0%'')], time := 0.015\<rparr>)))"
proof -
  let ?s0 = "blank\<lparr>mouse := (- 1000, - 1000), hoveredNode := None, animId := None, time := 0,
              nodesData := nodesData_decl, edgesData := edgesData_decl,
              nodes := [], edges := []\<rparr>"
  have s0: "?s0 = blank\<lparr>mouse := (- 1000, - 1000), nodesData := nodesData_decl,
                 edgesData := edgesData_decl\<rparr>"
    by (simp add: blank_def)
  have "nodesData ?s0 \<noteq> []" using decl_valid(1) by simp
  moreover have "\<forall>p\<in>set (edgesData ?s0).
      fst p \<in> d_id ` set (nodesData ?s0) \<and> snd p \<in> d_id ` set (nodesData ?s0)"
    using decl_valid(2) by simp
  ultimately have "init w h rj rp ?s0 =
    Done (requestAnimationFrame (drawNodes
      ((buildEdges (layoutNodes rj rp (resize w h ?s0)))
        \<lparr>listening := True,
         hud := hud ?s0 @ [(''0 / '' @ nat_text (length (nodesData ?s0)), ''0'', ''0%'')],
         time := time ?s0 + 0.015\<rparr>)))"
    by (rule init_eq)
  then show ?thesis
    unfolding SystemViz_def s0 by (simp add: length_decls nat_text_12 blank_def)
qed

lemma constructed_well_formed: "well_formed (state_of (SystemViz True w h rj rp))"
proof -
  let ?s0 = "blank\<lparr>mouse := (- 1000, - 1000), nodesData := nodesData_decl,
                 edgesData := edgesData_decl\<rparr>"
  have e: "edges (buildEdges (layoutNodes rj rp (resize w h ?s0))) = edges_resolved"
    by (rule relayout_edges) simp_all
  have "map node_static (nodes (layoutNodes rj rp (resize w h ?s0))) = map decl_static nodesData_decl"
    by (simp add: static_layoutNodes relayout_fields)
  with e show ?thesis
    unfolding constructed_eq state_of.simps
    by (simp add: well_formed_def drawn_fields relayout_fields comp_def static_float_node blank_def)
qed

lemma reachable_well_formed: "reachable s \<Longrightarrow> well_formed s"
proof (induction rule: reachable.induct)
  case (constructed w h rj rp)
  show ?case by (rule constructed_well_formed)
next
  case (event s ev)
  then obtain s' where "handle ev s = Done s'" "well_formed s'"
    using handle_well_formed by blast
  then show ?case by simp
qed

lemma handle_Done: "reachable s \<Longrightarrow> handle ev s = Done (state_of (handle ev s))"
  using handle_well_formed [OF reachable_well_formed, of s ev] by auto

subsection \<open>Pointer events\<close>

lemma reachable_example: "reachable example_viz"
  unfolding example_viz_def by (rule reachable.constructed)


lemma hit_center: "0 < radius n + tol \<Longrightarrow> hit tol (pos_x n) (pos_y n) n"
  by (simp add: hit_def)

lemma well_formed_hit_center:
  assumes "well_formed s" and "n \<in> set (nodes s)" and "0 \<le> tol"
  shows "hit tol (pos_x n) (pos_y n) n"
proof -
  from assms(1) have "map node_static (nodes s) = map decl_static nodesData_decl"
    by (simp add: well_formed_def)
  from radius_of_static [OF this assms(2)] have "0 < radius n" by auto
  with assms(3) show ?thesis by (simp add: hit_center)
qed


lemma on_pointer_eq:
  assumes "well_formed s"
  shows "on_pointer tol mx my s =
    (case first_hit tol mx my (nodes s) of
       None \<Rightarrow> Done s
     | Some i \<Rightarrow>
        (let ns = (nodes s)[i := (nodes s ! i)\<lparr>active := \<not> active (nodes s ! i)\<rparr>]
         in Done (s\<lparr>nodes := ns,
                    hud := hud s @
                      [(nat_text (activeCount ns) @ '' / '' @ nat_text (length ns),
                        nat_text (length (filter (endpoints_active ns) (edges s))),
                        load_text (activeCount ns) (length ns))]\<rparr>)))"
proof (cases "first_hit tol mx my (nodes s)")
  case None
  then show ?thesis by (simp add: on_pointer_def toggle_first_first_hit)
next
  case (Some i)
  let ?ns = "(nodes s)[i := (nodes s ! i)\<lparr>active := \<not> active (nodes s ! i)\<rparr>]"
  have "edges_ok (nodes s) (edges s)" using assms by (rule well_formed_edges_ok)
  then have "edges_ok (nodes (s\<lparr>nodes := ?ns\<rparr>)) (edges (s\<lparr>nodes := ?ns\<rparr>))"
    using edges_ok_length [of ?ns "nodes s" "edges s"] by simp
  from updateHUD_ok [OF this] Some show ?thesis
    by (simp add: on_pointer_def toggle_first_first_hit Let_def)
qed

lemma on_pointer_miss:
  assumes "well_formed s" and "\<forall>n\<in>set (nodes s). \<not> hit tol mx my n"
  shows "on_pointer tol mx my s = Done s"
  using assms(2) by (simp add: on_pointer_eq [OF assms(1)] first_hit_None [symmetric])

lemma on_pointer_hit:
  assumes "well_formed s" and "\<exists>n\<in>set (nodes s). hit tol mx my n"
  shows "\<exists>i m. i < length (nodes s) \<and> hit tol mx my (nodes s ! i) \<and>
           (\<forall>j<i. \<not> hit tol mx my (nodes s ! j)) \<and>
           on_pointer tol mx my s =
             Done (s\<lparr>nodes := (nodes s)[i := (nodes s ! i)\<lparr>active := \<not> active (nodes s ! i)\<rparr>],
                      hud := hud s @ [m]\<rparr>)"
proof -
  from assms(2) have "first_hit tol mx my (nodes s) \<noteq> None"
    by (simp add: first_hit_None)
  then obtain i where i: "first_hit tol mx my (nodes s) = Some i" by auto
  then have "i < length (nodes s) \<and> hit tol mx my (nodes s ! i) \<and>
      (\<forall>j<i. \<not> hit tol mx my (nodes s ! j))"
    using first_hit_Some [of tol mx my "nodes s" i] by blast
  moreover have "\<exists>m. on_pointer tol mx my s =
      Done (s\<lparr>nodes := (nodes s)[i := (nodes s ! i)\<lparr>active := \<not> active (nodes s ! i)\<rparr>],
               hud := hud s @ [m]\<rparr>)"
    unfolding on_pointer_eq [OF assms(1)] i option.case Let_def by (rule exI) (rule refl)
  ultimately show ?thesis by blast
qed

lemma handle_pointer:
  "well_formed s \<Longrightarrow> handle (Click mx my) s = on_pointer click_tolerance mx my s"
  "well_formed s \<Longrightarrow> handle (TouchStart mx my) s = on_pointer touch_tolerance mx my s"
  by (simp_all add: handle_def well_formed_def)

lemma zip_same_no_flip: "filter flipped (zip ns ns) = []"
  by (induction ns) (auto simp: flipped_def)

lemma update_flips_at_most_one:
  "length (filter flipped (zip ns (ns[i := t]))) \<le> 1"
proof (induction ns arbitrary: i)
  case Nil
  show ?case by simp
next
  case (Cons n ns)
  show ?case
  proof (cases i)
    case 0
    then show ?thesis by (simp add: zip_same_no_flip)
  next
    case (Suc k)
    with Cons.IH [of k] show ?thesis by (simp add: flipped_def)
  qed
qed

lemma on_pointer_nodes:
  assumes "well_formed s"
  shows "nodes (state_of (on_pointer tol mx my s)) =
    (case first_hit tol mx my (nodes s) of
       None \<Rightarrow> nodes s
     | Some i \<Rightarrow> (nodes s)[i := (nodes s ! i)\<lparr>active := \<not> active (nodes s ! i)\<rparr>])"
  by (simp add: on_pointer_eq [OF assms] Let_def split: option.splits)

lemma reachable_collapsed: "reachable collapsed_viz"
  unfolding collapsed_viz_def using reachable_example by (rule reachable.event)

lemma collapsed_nodes:
  "nodes collapsed_viz =
    map (layout_node (resize 0 0 example_viz) draws_half draws_zero) (enumerate 0 nodesData_decl)"
proof -
  have wf: "well_formed example_viz" using reachable_example by (rule reachable_well_formed)
  then have "listening example_viz" "nodesData example_viz = nodesData_decl"
    by (simp_all add: well_formed_def)
  then show ?thesis
    by (simp add: collapsed_viz_def handle_def relayout_fields layoutNodes_def resize_def)
qed

lemma collapsed_positions:
  assumes "n \<in> set (nodes collapsed_viz)"
  shows "pos_x n = 0 \<and> pos_y n = - 30"
proof -
  from assms obtain p where "n = layout_node (resize 0 0 example_viz) draws_half draws_zero p"
    unfolding collapsed_nodes by auto
  then show ?thesis
    by (cases p) (simp add: layout_node_def Let_def resize_def draws_half_def)
qed

subsection \<open>Publications\<close>

lemma updateHUD_snapshot:
  "edges_ok (nodes s) (edges s) \<Longrightarrow>
    updateHUD s = Done (s\<lparr>hud := hud s @ [snapshot (nodes s) (edges s)]\<rparr>)"
  by (simp add: updateHUD_ok snapshot_def)

lemma updateHUD_nodes_upd:
  assumes "well_formed s" and "length ms = length (nodes s)"
  shows "updateHUD (s\<lparr>nodes := ms\<rparr>) = Done (s\<lparr>nodes := ms, hud := hud s @ [snapshot ms (edges s)]\<rparr>)"
proof -
  have "edges_ok (nodes s) (edges s)" using assms(1) by (rule well_formed_edges_ok)
  then have "edges_ok (nodes (s\<lparr>nodes := ms\<rparr>)) (edges (s\<lparr>nodes := ms\<rparr>))"
    using edges_ok_length [OF assms(2), of "edges s"] by simp
  from updateHUD_snapshot [OF this] show ?thesis by simp
qed

lemma activateAll_eq:
  "well_formed s \<Longrightarrow>
    activateAll s =
      Done (s\<lparr>nodes := map (\<lambda>n. n\<lparr>active := True\<rparr>) (nodes s),
               hud := hud s @ [snapshot (map (\<lambda>n. n\<lparr>active := True\<rparr>) (nodes s)) (edges s)]\<rparr>)"
  unfolding activateAll_def by (rule updateHUD_nodes_upd) simp_all

lemma resetAll_eq:
  "well_formed s \<Longrightarrow>
    resetAll s =
      Done (s\<lparr>nodes := map (\<lambda>n. n\<lparr>active := False\<rparr>) (nodes s),
               hud := hud s @ [snapshot (map (\<lambda>n. n\<lparr>active := False\<rparr>) (nodes s)) (edges s)]\<rparr>)"
  unfolding resetAll_def by (rule updateHUD_nodes_upd) simp_all

lemma on_pointer_snapshot:
  assumes "well_formed s"
  shows "on_pointer tol mx my s =
    (case first_hit tol mx my (nodes s) of
       None \<Rightarrow> Done s
     | Some i \<Rightarrow>
         Done (s\<lparr>nodes := (nodes s)[i := (nodes s ! i)\<lparr>active := \<not> active (nodes s ! i)\<rparr>],
                  hud := hud s @
                    [snapshot ((nodes s)[i := (nodes s ! i)\<lparr>active := \<not> active (nodes s ! i)\<rparr>])
                       (edges s)]\<rparr>))"
  by (simp add: on_pointer_eq [OF assms] Let_def snapshot_def split: option.splits)

text \<open>An event publishes nothing, or the snapshot of the state it leaves.\<close>

lemma handle_publishes:
  assumes "well_formed s"
  shows "hud (state_of (handle ev s)) = hud s \<or>
         hud (state_of (handle ev s)) =
           hud s @ [snapshot (nodes (state_of (handle ev s))) (edges (state_of (handle ev s)))]"
proof -
  from assms have l: "listening s" by (simp add: well_formed_def)
  show ?thesis
  proof (cases ev)
    case (Resize w h rj rp)
    then show ?thesis using l by (simp add: handle_def relayout_fields)
  next
    case (MouseMove mx my)
    then show ?thesis using l by (simp add: handle_def updateHover_def)
  next
    case MouseLeave
    then show ?thesis using l by (simp add: handle_def)
  next
    case (Click mx my)
    then show ?thesis using l
      by (simp add: handle_def on_pointer_snapshot [OF assms] split: option.splits)
  next
    case (TouchStart mx my)
    then show ?thesis using l
      by (simp add: handle_def on_pointer_snapshot [OF assms] split: option.splits)
  next
    case ActivateAllClick
    then show ?thesis using l by (simp add: handle_def activateAll_eq [OF assms])
  next
    case ResetAllClick
    then show ?thesis using l by (simp add: handle_def resetAll_eq [OF assms])
  next
    case Frame
    show ?thesis
    proof (cases "raf_pending s")
      case Nil
      with Frame show ?thesis by (simp add: handle_def)
    next
      case (Cons k ks)
      have "edges_ok (nodes (s\<lparr>raf_pending := ks\<rparr>)) (edges (s\<lparr>raf_pending := ks\<rparr>))"
        using well_formed_edges_ok [OF assms] by simp
      from animate_ok [OF this] Frame Cons show ?thesis
        by (simp add: handle_def drawn_fields)
    qed
  next
    case Destroy
    then show ?thesis
      by (simp add: handle_def destroy_def cancelAnimationFrame_def split: option.splits)
  qed
qed

lemma Math_round_round: "Math_round v = round v"
  by (simp add: Math_round_def round_def)

lemma load_text_round:
  "0 < t \<Longrightarrow> load_text a t = int_text (round (100 * real a / real t)) @ ''%''"
  by (simp add: load_text_def Math_round_round mult.commute)

lemma load_text_3_12: "load_text 3 12 = ''25%''"
  by (simp add: load_text_def Math_round_def int_text_def nat_text_def dec_digits.simps digit_char_def)

lemma load_text_1_12: "load_text 1 12 = ''8%''"
  by (simp add: load_text_def Math_round_def int_text_def nat_text_def dec_digits.simps digit_char_def)

lemma nat_text_1: "nat_text 1 = ''1''"
  by (simp add: nat_text_def dec_digits.simps digit_char_def)

lemma activeCount_single:
  "\<forall>n\<in>set ns. \<not> active n \<Longrightarrow> i < length ns \<Longrightarrow>
    activeCount (ns[i := (ns ! i)\<lparr>active := True\<rparr>]) = 1"
proof (induction ns arbitrary: i)
  case Nil
  then show ?case by simp
next
  case (Cons n ns)
  show ?case
  proof (cases i)
    case 0
    with Cons.prems show ?thesis by (simp add: activeCount_def)
  next
    case (Suc k)
    with Cons.prems Cons.IH [of k] show ?thesis by (simp add: activeCount_def)
  qed
qed


lemma no_self_loops: "\<forall>e\<in>set edges_resolved. e_from e \<noteq> e_to e"
  by (simp add: edges_resolved_def)

lemma single_active_no_connection:
  assumes inact: "\<forall>n\<in>set ns. \<not> active n" and i: "i < length ns"
    and e: "e_from e \<noteq> e_to e"
  shows "\<not> endpoints_active (ns[i := (ns ! i)\<lparr>active := True\<rparr>]) e"
proof
  let ?ms = "ns[i := (ns ! i)\<lparr>active := True\<rparr>]"
  assume a: "endpoints_active ?ms e"
  then obtain x y where xy: "node_at ?ms (e_from e) = Some x" "node_at ?ms (e_to e) = Some y"
      "active x" "active y"
    by (auto simp: endpoints_active_def split: option.splits)
  then obtain p q where pq: "e_from e = Some p" "e_to e = Some q" "p < length ns" "q < length ns"
      "x = ?ms ! p" "y = ?ms ! q"
    by (auto simp: node_at_def split: option.splits if_splits)
  have "p = i"
  proof (rule ccontr)
    assume "p \<noteq> i"
    then have "x = ns ! p" using pq by simp
    with inact pq(3) xy(3) show False by auto
  qed
  moreover have "q = i"
  proof (rule ccontr)
    assume "q \<noteq> i"
    then have "y = ns ! q" using pq by simp
    with inact pq(4) xy(4) show False by auto
  qed
  ultimately show False using e pq by simp
qed

text \<open>The scenario of the specification: construct, then click on the first node.\<close>

lemma click_core_scenario:
  assumes s0_def: "s0 = state_of (SystemViz True w h rj rp)"
  shows "node_id (hd (nodes s0)) = ''core'' \<and>
         hud (state_of (handle (Click (pos_x (hd (nodes s0))) (pos_y (hd (nodes s0)))) s0)) =
           [(''0 / 12'', ''0'', ''0%''), (''1 / 12'', ''0'', ''8%'')]"
proof -
  let ?c = "hd (nodes s0)"
  have r: "reachable s0" unfolding s0_def by (rule reachable.constructed)
  then have wf: "well_formed s0" by (rule reachable_well_formed)
  then have len: "length (nodes s0) = 12" by (rule well_formed_length)
  then have ne: "nodes s0 \<noteq> []" by auto
  then have c0: "?c = nodes s0 ! 0" by (simp add: hd_conv_nth)
  have m: "?c \<in> set (nodes s0)" using ne by simp
  have "map node_id (nodes s0) = map d_id nodesData_decl" using wf by (rule well_formed_ids)
  then have "map node_id (nodes s0) ! 0 = map d_id nodesData_decl ! 0" by simp
  then have id: "node_id ?c = ''core''"
    using len by (simp add: c0 nodesData_decl_def mk_data_def)
  have hud0: "hud s0 = [(''0 / 12'', ''0'', ''0%'')]"
    unfolding s0_def constructed_eq by (simp add: drawn_fields)
  have inact: "\<forall>n\<in>set (nodes s0). \<not> active n"
    unfolding s0_def constructed_eq
    by (simp add: drawn_fields active_float_node relayout_fields inactive_layoutNodes)
  have "hit click_tolerance (pos_x ?c) (pos_y ?c) (nodes s0 ! 0)"
    using well_formed_hit_center [OF wf m, of click_tolerance] by (simp add: c0 click_tolerance_def)
  then have fh: "first_hit click_tolerance (pos_x ?c) (pos_y ?c) (nodes s0) = Some 0"
    using len by (simp add: first_hit_Some)
  let ?ms = "(nodes s0)[0 := (nodes s0 ! 0)\<lparr>active := True\<rparr>]"
  have tog: "(nodes s0)[0 := (nodes s0 ! 0)\<lparr>active := \<not> active (nodes s0 ! 0)\<rparr>] = ?ms"
    using inact m by (simp add: c0)
  have ac: "activeCount ?ms = 1"
    using inact len by (intro activeCount_single) simp_all
  have ed: "edges s0 = edges_resolved" using wf by (simp add: well_formed_def)
  have f: "filter (endpoints_active ?ms) (edges s0) = []"
    unfolding ed filter_empty_conv
    using no_self_loops single_active_no_connection [OF inact, of 0] len by auto
  have lm: "length ?ms = 12" using len by simp
  have snap: "snapshot ?ms (edges s0) = (''1 / 12'', ''0'', ''8%'')"
    by (simp only: snapshot_def ac f lm list.size nat_text_0 nat_text_1 nat_text_12
        load_text_1_12 append.simps)
  have "listening s0" using wf by (simp add: well_formed_def)
  then have "hud (state_of (handle (Click (pos_x ?c) (pos_y ?c)) s0)) =
      hud s0 @ [snapshot ?ms (edges s0)]"
    by (simp add: handle_def on_pointer_snapshot [OF wf] fh tog)
  with id hud0 snap show ?thesis by simp
qed




subsection \<open>Resize\<close>




subsection \<open>A connection that names no node\<close>

lemma ghost_ids:
  "map node_id (nodes (layoutNodes rj rp (resize w h ghost_config))) = map d_id nodesData_decl"
  by (rule ids_of_static) (simp add: static_layoutNodes relayout_fields ghost_config_def)

lemma ghost_edges:
  "edges (buildEdges (layoutNodes rj rp (resize w h ghost_config))) =
    [\<lparr>e_from = Some 0, e_to = None\<rparr>]"
proof -
  have "edgesData (layoutNodes rj rp (resize w h ghost_config)) = [(''core'', ''ghost'')]"
    by (simp add: relayout_fields ghost_config_def)
  then show ?thesis
    unfolding buildEdges_def Let_def nodeMap_of_ids ghost_ids
    by (simp add: nodesData_decl_def mk_data_def)
qed

text \<open>
  What becomes of such a configuration in \<open>init\<close>: the metrics are published (the
  count stops at the inactive first endpoint) and the first frame throws, after the
  listeners have been registered.
\<close>

lemma ghost_init_raises:
  "\<exists>s. init w h rj rp ghost_config = Raised TypeError s \<and> listening s \<and>
        hud s = [(''0 / 12'', ''0'', ''0%'')] \<and> raf_pending s = []"
proof -
  let ?l = "layoutNodes rj rp (resize w h ghost_config)"
  let ?b = "buildEdges ?l"
  let ?e = "\<lparr>e_from = Some 0, e_to = None\<rparr>"
  have len: "length (nodes ?l) = 12"
    using length_decl [OF ghost_ids [of rj rp w h]] .
  have inact: "\<forall>n\<in>set (nodes ?l). \<not> active n" by (simp add: inactive_layoutNodes)
  then have a0: "\<not> active (nodes ?l ! 0)" using len by simp
  have ac: "activeCount (nodes ?l) = 0" using inact by (rule activeCount_inactive)
  have ba: "bothActive (nodes ?l) ?e = Inr False"
    using a0 len by (simp add: bothActive_def node_at_def)
  have fields: "nodes ?b = nodes ?l" "hud ?b = []" "raf_pending ?b = []"
    by (simp_all add: relayout_fields ghost_config_def blank_def)
  let ?u = "?b\<lparr>listening := True, hud := [(''0 / 12'', ''0'', ''0%'')]\<rparr>"
  have "updateHUD (?b\<lparr>listening := True\<rparr>) = Done ?u"
    by (simp add: updateHUD_def Let_def fields ghost_edges ba ac len nat_text_0 nat_text_12
        load_text_0)
  then have b: "bindEvents ?b = Done ?u" by (simp add: bindEvents_def)
  have "edge_stroke (nodes ?l) ?e = Inl TypeError"
    using a0 len by (simp add: edge_stroke_def ba node_at_def)
  then have "animate ?u = Raised TypeError (?u\<lparr>time := time ?u + 0.015\<rparr>)"
    by (simp add: animate_def Let_def fields ghost_edges)
  then have "init w h rj rp ghost_config = Raised TypeError (?u\<lparr>time := time ?u + 0.015\<rparr>)"
    by (simp add: init_def b)
  moreover have "listening (?u\<lparr>time := time ?u + 0.015\<rparr>)" by simp
  moreover have "hud (?u\<lparr>time := time ?u + 0.015\<rparr>) = [(''0 / 12'', ''0'', ''0%'')]" by simp
  moreover have "raf_pending (?u\<lparr>time := time ?u + 0.015\<rparr>) = []" by (simp add: fields)
  ultimately show ?thesis by blast
qed

subsection \<open>Teardown\<close>

lemma destroy_idem: "destroy (destroy s) = destroy s"
  by (simp add: destroy_def cancelAnimationFrame_def split: option.splits)

lemma destroy_fields:
  "nodes (destroy s) = nodes s" "edges (destroy s) = edges s" "hud (destroy s) = hud s"
  "time (destroy s) = time s" "raf_next (destroy s) = raf_next s"
  "listening (destroy s) = listening s"
  by (simp_all add: destroy_def cancelAnimationFrame_def split: option.splits)

lemma updateHUD_frames:
  "raf_pending (state_of (updateHUD s)) = raf_pending s \<and>
   raf_next (state_of (updateHUD s)) = raf_next s \<and> time (state_of (updateHUD s)) = time s"
  by (simp add: updateHUD_def Let_def split: sum.splits)

lemma on_pointer_frames:
  "raf_pending (state_of (on_pointer tol mx my s)) = raf_pending s \<and>
   raf_next (state_of (on_pointer tol mx my s)) = raf_next s \<and>
   time (state_of (on_pointer tol mx my s)) = time s"
proof (cases "toggle_first tol mx my (nodes s)")
  case None
  then show ?thesis by (simp add: on_pointer_def)
next
  case (Some ns)
  with updateHUD_frames [of "s\<lparr>nodes := ns\<rparr>"] show ?thesis by (simp add: on_pointer_def)
qed

text \<open>With no callback pending, no event schedules or runs a frame.\<close>

lemma no_pending_step:
  assumes "raf_pending s = []"
  shows "raf_pending (state_of (handle ev s)) = [] \<and>
         raf_next (state_of (handle ev s)) = raf_next s \<and>
         time (state_of (handle ev s)) = time s"
proof (cases "ev \<noteq> Destroy \<and> ev \<noteq> Frame \<and> \<not> listening s")
  case True
  with assms show ?thesis by (simp add: handle_def)
next
  case False
  then have h: "handle ev s = dispatch ev s" unfolding handle_def by (simp only: if_False)
  show ?thesis
  proof (cases ev)
    case (Resize w h rj rp)
    with assms show ?thesis unfolding h by (simp add: relayout_fields)
  next
    case (MouseMove mx my)
    with assms show ?thesis unfolding h by (simp add: updateHover_def)
  next
    case MouseLeave
    with assms show ?thesis unfolding h by simp
  next
    case (Click mx my)
    with assms on_pointer_frames [of click_tolerance mx my s] show ?thesis unfolding h by simp
  next
    case (TouchStart mx my)
    with assms on_pointer_frames [of touch_tolerance mx my s] show ?thesis unfolding h by simp
  next
    case ActivateAllClick
    with assms updateHUD_frames [of "s\<lparr>nodes := map (\<lambda>n. n\<lparr>active := True\<rparr>) (nodes s)\<rparr>"]
    show ?thesis unfolding h by (simp add: activateAll_def)
  next
    case ResetAllClick
    with assms updateHUD_frames [of "s\<lparr>nodes := map (\<lambda>n. n\<lparr>active := False\<rparr>) (nodes s)\<rparr>"]
    show ?thesis unfolding h by (simp add: resetAll_def)
  next
    case Frame
    with assms show ?thesis unfolding h by simp
  next
    case Destroy
    with assms show ?thesis unfolding h
      by (simp add: destroy_def cancelAnimationFrame_def split: option.splits)
  qed
qed

lemma no_pending_run:
  "raf_pending s = [] \<Longrightarrow>
    raf_pending (run evs s) = [] \<and> raf_next (run evs s) = raf_next s \<and> time (run evs s) = time s"
proof (induction evs arbitrary: s)
  case Nil
  then show ?case by simp
next
  case (Cons ev evs)
  from no_pending_step [OF Cons.prems, of ev] Cons.IH [of "state_of (handle ev s)"]
  show ?case by simp
qed

lemma blank_step: "handle ev blank = Done blank"
  by (cases ev) (simp_all add: handle_def blank_def destroy_def)

lemma blank_run: "run evs blank = blank"
  by (induction evs) (simp_all add: blank_step)

section \<open>The claims\<close>

subsection \<open>C6: the state after construction\<close>

text \<open>
  C6. For an instance with at least one declared node and with declared connections
  whose identities all occur among the declared nodes, \<open>init\<close> (the body of the
  constructor) returns without an error; in the instance it returns every node's
  \<open>active\<close> flag is false, there is one node per declaration and one connection per
  declared pair, every connection resolves, and the first and only metrics
  publication reports active count 0 of N, active connections 0 and load 0%.
\<close>

theorem construction_all_inactive_zero_metrics:
  assumes "nodesData s0 \<noteq> []"
    and "\<forall>p\<in>set (edgesData s0).
           fst p \<in> d_id ` set (nodesData s0) \<and> snd p \<in> d_id ` set (nodesData s0)"
  shows "\<exists>s. init w h rj rp s0 = Done s \<and>
           (\<forall>n\<in>set (nodes s). \<not> active n) \<and>
           length (nodes s) = length (nodesData s0) \<and>
           length (edges s) = length (edgesData s0) \<and>
           edges_ok (nodes s) (edges s) \<and>
           activeCount (nodes s) = 0 \<and>
           hud s = hud s0 @ [(''0 / '' @ nat_text (length (nodesData s0)), ''0'', ''0%'')]"
proof -
  let ?b = "(buildEdges (layoutNodes rj rp (resize w h s0)))
        \<lparr>listening := True,
         hud := hud s0 @ [(''0 / '' @ nat_text (length (nodesData s0)), ''0'', ''0%'')],
         time := time s0 + 0.015\<rparr>"
  let ?r = "requestAnimationFrame (drawNodes ?b)"
  have eq: "init w h rj rp s0 = Done ?r"
    using assms by (rule init_eq)
  have nb: "nodes ?b = nodes (layoutNodes rj rp (resize w h s0))"
    by (simp add: relayout_fields)
  have inact: "\<forall>n\<in>set (nodes ?r). \<not> active n"
    unfolding drawn_fields nb by (simp add: active_float_node inactive_layoutNodes)
  have len: "length (nodes ?r) = length (nodesData s0)"
    unfolding drawn_fields nb by (simp add: length_layoutNodes relayout_fields)
  have elen: "length (edges ?r) = length (edgesData s0)"
    unfolding drawn_fields by (simp add: buildEdges_def Let_def relayout_fields)
  have st: "map node_static (nodes (layoutNodes rj rp (resize w h s0))) = map decl_static (nodesData s0)"
    by (simp add: static_layoutNodes relayout_fields)
  have "node_id ` set (nodes (layoutNodes rj rp (resize w h s0))) =
        set (map node_id (nodes (layoutNodes rj rp (resize w h s0))))" by simp
  also have "\<dots> = d_id ` set (nodesData s0)"
    by (simp only: ids_of_static [OF st]) simp
  finally have "edges_ok (nodes (layoutNodes rj rp (resize w h s0)))
      (edges (buildEdges (layoutNodes rj rp (resize w h s0))))"
    using assms(2) by (intro buildEdges_edges_ok) (simp add: relayout_fields)
  then have ok: "edges_ok (nodes ?r) (edges ?r)"
    using edges_ok_length [of "nodes ?r" "nodes (layoutNodes rj rp (resize w h s0))"]
    unfolding drawn_fields nb by simp
  have hd: "hud ?r = hud s0 @ [(''0 / '' @ nat_text (length (nodesData s0)), ''0'', ''0%'')]"
    unfolding drawn_fields by simp
  from eq inact len elen ok hd activeCount_inactive [OF inact] show ?thesis by blast
qed

text \<open>
  The constructor itself, at a canvas of 800 by 600: its declarations satisfy both
  hypotheses, and the publication reads 0 / 12, 0 and 0%.
\<close>

theorem construction_all_inactive_zero_metrics_witness:
  "nodesData_decl \<noteq> [] \<and>
   (\<exists>s. SystemViz True 800 600 (\<lambda>i. 1 / 2) (\<lambda>i. 0) = Done s \<and>
        list_all (\<lambda>n. \<not> active n) (nodes s) \<and> length (nodes s) = 12 \<and> length (edges s) = 17 \<and>
        hud s = [(''0 / 12'', ''0'', ''0%'')])"
proof -
  let ?s0 = "blank\<lparr>mouse := (- 1000, - 1000), hoveredNode := None, animId := None, time := 0,
              nodesData := nodesData_decl, edgesData := edgesData_decl,
              nodes := [], edges := []\<rparr>"
  have a: "nodesData ?s0 \<noteq> []" using decl_valid(1) by simp
  have b: "\<forall>p\<in>set (edgesData ?s0).
      fst p \<in> d_id ` set (nodesData ?s0) \<and> snd p \<in> d_id ` set (nodesData ?s0)"
    using decl_valid(2) by simp
  have i: "SystemViz True 800 600 (\<lambda>i. 1 / 2) (\<lambda>i. 0) = init 800 600 (\<lambda>i. 1 / 2) (\<lambda>i. 0) ?s0"
    by (simp add: SystemViz_def)
  from construction_all_inactive_zero_metrics [OF a b, of 800 600 "\<lambda>i. 1 / 2" "\<lambda>i. 0"]
  show ?thesis
    unfolding i by (auto simp: length_decls nat_text_12 blank_def list_all_iff decl_valid(1))
qed

subsection \<open>C7: a click or tap changes the hit node only\<close>

text \<open>
  C7. In every reachable state, a click at a position that hits no node (no node
  passes the hit test with the click tolerance) returns the instance unchanged: no
  node changes and nothing is published. A click at a position that hits some node
  returns the instance with exactly one entry \<open>i\<close> of the node array replaced,
  by the same node with its \<open>active\<close> flag negated, where node \<open>i\<close> passes the
  hit test, and with exactly one entry appended to the published metrics; every other
  node, and the identity, position and radius of node \<open>i\<close>, and every other field
  of the instance are as before. The same holds of a tap, with the touch tolerance.
\<close>

theorem pointer_event_flips_only_the_hit_node:
  assumes "reachable s"
  shows "((\<forall>n\<in>set (nodes s). \<not> hit click_tolerance mx my n) \<longrightarrow>
            handle (Click mx my) s = Done s) \<and>
         ((\<exists>n\<in>set (nodes s). hit click_tolerance mx my n) \<longrightarrow>
            (\<exists>i m. i < length (nodes s) \<and> hit click_tolerance mx my (nodes s ! i) \<and>
               handle (Click mx my) s =
                 Done (s\<lparr>nodes := (nodes s)[i := (nodes s ! i)\<lparr>active := \<not> active (nodes s ! i)\<rparr>],
                          hud := hud s @ [m]\<rparr>))) \<and>
         ((\<forall>n\<in>set (nodes s). \<not> hit touch_tolerance mx my n) \<longrightarrow>
            handle (TouchStart mx my) s = Done s) \<and>
         ((\<exists>n\<in>set (nodes s). hit touch_tolerance mx my n) \<longrightarrow>
            (\<exists>i m. i < length (nodes s) \<and> hit touch_tolerance mx my (nodes s ! i) \<and>
               handle (TouchStart mx my) s =
                 Done (s\<lparr>nodes := (nodes s)[i := (nodes s ! i)\<lparr>active := \<not> active (nodes s ! i)\<rparr>],
                          hud := hud s @ [m]\<rparr>)))"
proof -
  from assms have wf: "well_formed s" by (rule reachable_well_formed)
  show ?thesis
    unfolding handle_pointer [OF wf]
    using on_pointer_miss [OF wf] on_pointer_hit [OF wf] by blast
qed

text \<open>A click at the rendered centre of the first node of the example.\<close>

theorem pointer_event_flips_only_the_hit_node_witness:
  "reachable example_viz \<and>
   (\<exists>i m. i < length (nodes example_viz) \<and>
      handle (Click (pos_x (hd (nodes example_viz))) (pos_y (hd (nodes example_viz)))) example_viz =
        Done (example_viz\<lparr>nodes := (nodes example_viz)
                 [i := (nodes example_viz ! i)\<lparr>active := \<not> active (nodes example_viz ! i)\<rparr>],
               hud := hud example_viz @ [m]\<rparr>))"
proof -
  let ?c = "hd (nodes example_viz)"
  have wf: "well_formed example_viz" using reachable_example by (rule reachable_well_formed)
  then have "length (nodes example_viz) = 12" by (rule well_formed_length)
  then have "?c \<in> set (nodes example_viz)" by (cases "nodes example_viz") auto
  moreover from well_formed_hit_center [OF wf this, of click_tolerance]
  have "hit click_tolerance (pos_x ?c) (pos_y ?c) ?c" by (simp add: click_tolerance_def)
  ultimately have "\<exists>n\<in>set (nodes example_viz). hit click_tolerance (pos_x ?c) (pos_y ?c) n"
    by blast
  with pointer_event_flips_only_the_hit_node [OF reachable_example, of "pos_x ?c" "pos_y ?c"]
    reachable_example
  show ?thesis by blast
qed

subsection \<open>C9: the hit test\<close>



subsection \<open>C10: the first hit in declaration order\<close>

text \<open>
  C10. \<open>first_hit\<close>, the loop of the hover, returns index \<open>i\<close> exactly when node
  \<open>i\<close> passes the hit test and no node before it in the array does. In every
  reachable state a click toggles the node at the index that \<open>first_hit\<close> returns
  for the click tolerance and leaves the array as it is when there is none, a tap
  does so for the touch tolerance, and a pointer move to the same position sets the
  hovered node to the index the click toggles. After a click or a tap at most one
  node has an \<open>active\<close> flag different from before, however many nodes pass the test.
\<close>

theorem pointer_event_toggles_first_hit_only:
  assumes "reachable s"
  shows "(first_hit tol mx my (nodes s) = Some i \<longleftrightarrow>
            i < length (nodes s) \<and> hit tol mx my (nodes s ! i) \<and>
            (\<forall>j<i. \<not> hit tol mx my (nodes s ! j))) \<and>
         nodes (state_of (handle (Click mx my) s)) =
           (case first_hit click_tolerance mx my (nodes s) of
              None \<Rightarrow> nodes s
            | Some k \<Rightarrow> (nodes s)[k := (nodes s ! k)\<lparr>active := \<not> active (nodes s ! k)\<rparr>]) \<and>
         nodes (state_of (handle (TouchStart mx my) s)) =
           (case first_hit touch_tolerance mx my (nodes s) of
              None \<Rightarrow> nodes s
            | Some k \<Rightarrow> (nodes s)[k := (nodes s ! k)\<lparr>active := \<not> active (nodes s ! k)\<rparr>]) \<and>
         hoveredNode (state_of (handle (MouseMove mx my) s)) =
           first_hit click_tolerance mx my (nodes s) \<and>
         length (filter flipped
           (zip (nodes s) (nodes (state_of (handle (Click mx my) s))))) \<le> 1 \<and>
         length (filter flipped
           (zip (nodes s) (nodes (state_of (handle (TouchStart mx my) s))))) \<le> 1"
proof -
  from assms have wf: "well_formed s" by (rule reachable_well_formed)
  then have l: "listening s" by (simp add: well_formed_def)
  have a: "first_hit tol mx my (nodes s) = Some i \<longleftrightarrow>
            i < length (nodes s) \<and> hit tol mx my (nodes s ! i) \<and>
            (\<forall>j<i. \<not> hit tol mx my (nodes s ! j))"
    by (rule first_hit_Some)
  have h: "hoveredNode (state_of (handle (MouseMove mx my) s)) =
           first_hit click_tolerance mx my (nodes s)"
    using l by (simp add: handle_def updateHover_def)
  have f: "length (filter flipped
           (zip (nodes s) (nodes (state_of (on_pointer t mx my s))))) \<le> 1" for t
  proof (cases "first_hit t mx my (nodes s)")
    case None
    then show ?thesis by (simp add: on_pointer_nodes [OF wf] zip_same_no_flip)
  next
    case (Some k)
    then show ?thesis
      using update_flips_at_most_one
        [of "nodes s" k "(nodes s ! k)\<lparr>active := \<not> active (nodes s ! k)\<rparr>"]
      by (simp add: on_pointer_nodes [OF wf])
  qed
  from a h f [of click_tolerance] f [of touch_tolerance] show ?thesis
    unfolding handle_pointer [OF wf] on_pointer_nodes [OF wf] by blast
qed

text \<open>
  All twelve nodes of the collapsed example lie on (0, -30): a click there hits the
  first and the second node, and toggles the first.
\<close>

theorem pointer_event_toggles_first_hit_only_witness:
  "reachable collapsed_viz \<and>
   hit click_tolerance 0 (- 30) (nodes collapsed_viz ! 0) \<and>
   hit click_tolerance 0 (- 30) (nodes collapsed_viz ! 1) \<and>
   nodes (state_of (handle (Click 0 (- 30)) collapsed_viz)) =
     (nodes collapsed_viz)
       [0 := (nodes collapsed_viz ! 0)\<lparr>active := \<not> active (nodes collapsed_viz ! 0)\<rparr>]"
proof -
  have wf: "well_formed collapsed_viz" using reachable_collapsed by (rule reachable_well_formed)
  then have len: "length (nodes collapsed_viz) = 12" by (rule well_formed_length)
  have h: "hit click_tolerance 0 (- 30) (nodes collapsed_viz ! k)" if "k < 12" for k
  proof -
    from that len have m: "nodes collapsed_viz ! k \<in> set (nodes collapsed_viz)" by simp
    from well_formed_hit_center [OF wf m, of click_tolerance] collapsed_positions [OF m]
    show ?thesis by (simp add: click_tolerance_def)
  qed
  have h0: "hit click_tolerance 0 (- 30) (nodes collapsed_viz ! 0)" by (rule h) simp
  have h1: "hit click_tolerance 0 (- 30) (nodes collapsed_viz ! 1)" by (rule h) simp
  from pointer_event_toggles_first_hit_only
    [OF reachable_collapsed, of click_tolerance 0 "- 30" 0] h0 len
  have "first_hit click_tolerance 0 (- 30) (nodes collapsed_viz) = Some 0"
    and n: "nodes (state_of (handle (Click 0 (- 30)) collapsed_viz)) =
      (case first_hit click_tolerance 0 (- 30) (nodes collapsed_viz) of
         None \<Rightarrow> nodes collapsed_viz
       | Some k \<Rightarrow> (nodes collapsed_viz)
           [k := (nodes collapsed_viz ! k)\<lparr>active := \<not> active (nodes collapsed_viz ! k)\<rparr>])"
    by simp_all
  then have "nodes (state_of (handle (Click 0 (- 30)) collapsed_viz)) =
     (nodes collapsed_viz)
       [0 := (nodes collapsed_viz ! 0)\<lparr>active := \<not> active (nodes collapsed_viz ! 0)\<rparr>]"
    by simp
  with reachable_collapsed h0 h1 show ?thesis by blast
qed

subsection \<open>C8: activate all, then reset all\<close>

text \<open>
  C8. From every reachable state the click on the activate-all button returns without
  an error an instance in which every node is active, with exactly one entry appended
  to the published metrics; from that instance the click on the reset-all button
  returns without an error an instance in which every node is inactive and the active
  count is 0, again with exactly one entry appended, which reads 0 of 12. Nothing is
  assumed about which nodes were active before.
\<close>

theorem bulk_activate_then_reset:
  assumes "reachable s"
  shows "\<exists>s1 s2 m1 m2.
           handle ActivateAllClick s = Done s1 \<and> (\<forall>n\<in>set (nodes s1). active n) \<and>
           activeCount (nodes s1) = length (nodes s) \<and> hud s1 = hud s @ [m1] \<and>
           handle ResetAllClick s1 = Done s2 \<and> (\<forall>n\<in>set (nodes s2). \<not> active n) \<and>
           activeCount (nodes s2) = 0 \<and> hud s2 = hud s1 @ [m2] \<and>
           fst m2 = ''0 / 12''"
proof -
  from assms have wf: "well_formed s" by (rule reachable_well_formed)
  then have l: "listening s" by (simp add: well_formed_def)
  let ?a = "map (\<lambda>n. n\<lparr>active := True\<rparr>) (nodes s)"
  let ?s1 = "s\<lparr>nodes := ?a, hud := hud s @ [snapshot ?a (edges s)]\<rparr>"
  have h1: "handle ActivateAllClick s = Done ?s1"
    using l by (simp add: handle_def activateAll_eq [OF wf])
  have r1: "reachable ?s1"
    using reachable.event [OF assms, of ActivateAllClick] by (simp add: h1)
  then have wf1: "well_formed ?s1" by (rule reachable_well_formed)
  then have l1: "listening ?s1" by (simp add: well_formed_def)
  let ?z = "map (\<lambda>n. n\<lparr>active := False\<rparr>) (nodes ?s1)"
  let ?s2 = "?s1\<lparr>nodes := ?z, hud := hud ?s1 @ [snapshot ?z (edges ?s1)]\<rparr>"
  have h2: "handle ResetAllClick ?s1 = Done ?s2"
    using l1 unfolding handle_def by (simp only: resetAll_eq [OF wf1] dispatch.simps) simp
  have a1: "\<forall>n\<in>set (nodes ?s1). active n" by simp
  have c1: "activeCount (nodes ?s1) = length (nodes s)" by (simp add: activeCount_def)
  have a2: "\<forall>n\<in>set (nodes ?s2). \<not> active n" by simp
  have c2: "activeCount (nodes ?s2) = 0" by (simp add: activeCount_def)
  have "length ?z = 12" using well_formed_length [OF wf] by simp
  then have m2: "fst (snapshot ?z (edges ?s1)) = ''0 / 12''"
    by (simp add: snapshot_def activeCount_def nat_text_0 nat_text_12)
  have u1: "hud ?s1 = hud s @ [snapshot ?a (edges s)]" by simp
  have u2: "hud ?s2 = hud ?s1 @ [snapshot ?z (edges ?s1)]" by simp
  from h1 h2 a1 c1 a2 c2 m2 u1 u2 show ?thesis by blast
qed

text \<open>The two buttons on the example.\<close>

theorem bulk_activate_then_reset_witness:
  "reachable example_viz \<and>
   (\<exists>s1 s2 m1 m2.
      handle ActivateAllClick example_viz = Done s1 \<and> activeCount (nodes s1) = 12 \<and>
      hud s1 = hud example_viz @ [m1] \<and>
      handle ResetAllClick s1 = Done s2 \<and> activeCount (nodes s2) = 0 \<and>
      hud s2 = hud s1 @ [m2])"
proof -
  have "length (nodes example_viz) = 12"
    using reachable_well_formed [OF reachable_example] by (rule well_formed_length)
  with bulk_activate_then_reset [OF reachable_example] reachable_example
  show ?thesis by fastforce
qed

subsection \<open>C4: the published load\<close>

text \<open>
  C4. From every reachable state an event publishes nothing, or appends one entry whose
  load is the decimal text of round(100 * activeCount / totalCount), with the percent
  sign, for the nodes of the state the event leaves. \<open>updateHUD\<close> on a reachable state
  returns without an error and appends one entry with that load for the nodes of the
  state; with exactly 3 active nodes the load is 25%, and with exactly one active node
  the active count reads 1 / 12 and the load 8% (the load text computed for 3 of 12
  is 25% and for 1 of 12 is 8%). For every canvas size and all random
  draws, the first node of the constructed instance is \<open>core\<close>, and a click at its
  rendered position leaves the publications 0 / 12, 0, 0% (from the constructor) and
  1 / 12, 0, 8%.
\<close>

theorem published_load_is_rounded_percentage:
  assumes "reachable s"
  shows "(hud (state_of (handle ev s)) = hud s \<or>
          (\<exists>a c. hud (state_of (handle ev s)) =
             hud s @ [(a, c, int_text (round (100 * real (activeCount (nodes (state_of (handle ev s)))) /
                                        real (length (nodes (state_of (handle ev s)))))) @ ''%'')])) \<and>
         (\<exists>s' a c. updateHUD s = Done s' \<and>
            hud s' = hud s @ [(a, c, int_text (round (100 * real (activeCount (nodes s)) /
                                              real (length (nodes s)))) @ ''%'')] \<and>
            (activeCount (nodes s) = 3 \<longrightarrow> hud s' = hud s @ [(a, c, ''25%'')]) \<and>
            (activeCount (nodes s) = 1 \<longrightarrow> hud s' = hud s @ [(''1 / 12'', c, ''8%'')])) \<and>
         load_text 3 12 = ''25%'' \<and> load_text 1 12 = ''8%'' \<and>
         node_id (hd (nodes (state_of (SystemViz True w h rj rp)))) = ''core'' \<and>
         hud (state_of (handle
               (Click (pos_x (hd (nodes (state_of (SystemViz True w h rj rp)))))
                      (pos_y (hd (nodes (state_of (SystemViz True w h rj rp))))))
               (state_of (SystemViz True w h rj rp)))) =
           [(''0 / 12'', ''0'', ''0%''), (''1 / 12'', ''0'', ''8%'')]"
proof -
  from assms have wf: "well_formed s" by (rule reachable_well_formed)
  let ?t = "state_of (handle ev s)"
  have "reachable ?t" using assms by (rule reachable.event)
  then have "well_formed ?t" by (rule reachable_well_formed)
  then have lt: "length (nodes ?t) = 12" by (rule well_formed_length)
  have "snapshot (nodes ?t) (edges ?t) =
      (fst (snapshot (nodes ?t) (edges ?t)), fst (snd (snapshot (nodes ?t) (edges ?t))),
       int_text (round (100 * real (activeCount (nodes ?t)) / real (length (nodes ?t)))) @ ''%'')"
    using lt by (simp add: snapshot_def load_text_round)
  with handle_publishes [OF wf, of ev]
  have A: "hud ?t = hud s \<or>
          (\<exists>a c. hud ?t =
             hud s @ [(a, c, int_text (round (100 * real (activeCount (nodes ?t)) /
                                        real (length (nodes ?t)))) @ ''%'')])"
    by metis
  have l: "length (nodes s) = 12" using wf by (rule well_formed_length)
  let ?a = "nat_text (activeCount (nodes s)) @ '' / '' @ nat_text (length (nodes s))"
  let ?c = "nat_text (length (filter (endpoints_active (nodes s)) (edges s)))"
  let ?s' = "s\<lparr>hud := hud s @ [(?a, ?c, load_text (activeCount (nodes s)) (length (nodes s)))]\<rparr>"
  have u: "updateHUD s = Done ?s'"
    using updateHUD_ok [OF well_formed_edges_ok [OF wf]] .
  have h: "hud ?s' = hud s @ [(?a, ?c, int_text (round (100 * real (activeCount (nodes s)) /
                                              real (length (nodes s)))) @ ''%'')]"
    using l by (simp add: load_text_round)
  have h3: "hud ?s' = hud s @ [(?a, ?c, ''25%'')]" if "activeCount (nodes s) = 3"
    using that l by (simp add: load_text_3_12)
  have h1: "hud ?s' = hud s @ [(''1 / 12'', ?c, ''8%'')]" if "activeCount (nodes s) = 1"
    by (simp only: that l load_text_1_12 nat_text_1 nat_text_12 append.simps) simp
  from u h h3 h1 have B: "\<exists>s' a c. updateHUD s = Done s' \<and>
            hud s' = hud s @ [(a, c, int_text (round (100 * real (activeCount (nodes s)) /
                                              real (length (nodes s)))) @ ''%'')] \<and>
            (activeCount (nodes s) = 3 \<longrightarrow> hud s' = hud s @ [(a, c, ''25%'')]) \<and>
            (activeCount (nodes s) = 1 \<longrightarrow> hud s' = hud s @ [(''1 / 12'', c, ''8%'')])"
    by (intro exI [of _ ?s'] exI [of _ ?a] exI [of _ ?c]) (auto simp: nat_text_1 nat_text_12 l)
  from A B load_text_3_12 load_text_1_12 click_core_scenario [OF refl, of w h rj rp]
  show ?thesis by blast
qed

text \<open>The click on \<open>core\<close> in the example.\<close>

theorem published_load_is_rounded_percentage_witness:
  "reachable example_viz \<and>
   hud (state_of (handle
         (Click (pos_x (hd (nodes example_viz))) (pos_y (hd (nodes example_viz)))) example_viz)) =
     [(''0 / 12'', ''0'', ''0%''), (''1 / 12'', ''0'', ''8%'')]"
  using published_load_is_rounded_percentage
    [OF reachable_example, of Frame 800 600 draws_half draws_zero] reachable_example
  unfolding example_viz_def by blast

subsection \<open>C5: a connection is active when both its endpoints are\<close>



subsection \<open>C1: resize and the active flags\<close>




subsection \<open>C2: a connection whose identity names no node\<close>




subsection \<open>C3: teardown\<close>

text \<open>
  C3 as stated fails: after \<open>destroy\<close> on the example one entry has been published,
  and a click at the first node's position after the teardown publishes a second.
\<close>

theorem destroy_stops_metric_pushes_counterexample:
  "length (hud (run [Destroy] example_viz)) = 1 \<and>
   length (hud (run [Destroy,
       Click (pos_x (hd (nodes example_viz))) (pos_y (hd (nodes example_viz)))] example_viz)) = 2"
proof -
  let ?c = "hd (nodes example_viz)"
  let ?d = "destroy example_viz"
  have wf: "well_formed example_viz" using reachable_example by (rule reachable_well_formed)
  have hud0: "hud example_viz = [(''0 / 12'', ''0'', ''0%'')]"
    unfolding example_viz_def constructed_eq by (simp add: drawn_fields)
  have wfd: "well_formed ?d" using wf by (rule destroy_well_formed)
  have "length (nodes example_viz) = 12" using wf by (rule well_formed_length)
  then have m: "?c \<in> set (nodes ?d)" by (cases "nodes example_viz") (auto simp: destroy_fields)
  from well_formed_hit_center [OF wfd m, of click_tolerance]
  have "\<exists>n\<in>set (nodes ?d). hit click_tolerance (pos_x ?c) (pos_y ?c) n"
    using m by (auto simp: click_tolerance_def)
  from on_pointer_hit [OF wfd this] obtain i k where
    "on_pointer click_tolerance (pos_x ?c) (pos_y ?c) ?d =
       Done (?d\<lparr>nodes := (nodes ?d)[i := (nodes ?d ! i)\<lparr>active := \<not> active (nodes ?d ! i)\<rparr>],
               hud := hud ?d @ [k]\<rparr>)"
    by blast
  then have "hud (state_of (handle (Click (pos_x ?c) (pos_y ?c)) ?d)) = hud ?d @ [k]"
    by (simp add: handle_pointer [OF wfd])
  then show ?thesis
    by (simp add: handle_def hud0 destroy_fields)
qed

text \<open>
  C3 as amended. In every reachable state \<open>destroy\<close> returns without an error, and a
  second \<open>destroy\<close> returns without an error and changes nothing. After \<open>destroy\<close>,
  whatever events arrive, no animation callback is pending, none is requested
  (\<open>raf_next\<close> stays) and none runs (\<open>time\<close> stays). On an instance whose canvas was
  missing, so that its loop never started, \<open>destroy\<close> and every event change nothing.
  The listeners stay registered: a click or a tap after the teardown that hits a node
  publishes one more entry.
\<close>

theorem destroy_stops_frames_and_is_idempotent:
  assumes "reachable s"
  shows "handle Destroy s = Done (destroy s) \<and>
         handle Destroy (destroy s) = Done (destroy s) \<and>
         (\<forall>evs. raf_pending (run evs (destroy s)) = [] \<and>
                 raf_next (run evs (destroy s)) = raf_next s \<and>
                 time (run evs (destroy s)) = time s) \<and>
         SystemViz False w h rj rp = Done blank \<and>
         handle Destroy blank = Done blank \<and>
         (\<forall>evs. run evs blank = blank) \<and>
         ((\<exists>n\<in>set (nodes s). hit click_tolerance mx my n) \<longrightarrow>
            length (hud (state_of (handle (Click mx my) (destroy s)))) = Suc (length (hud s))) \<and>
         ((\<exists>n\<in>set (nodes s). hit touch_tolerance mx my n) \<longrightarrow>
            length (hud (state_of (handle (TouchStart mx my) (destroy s)))) = Suc (length (hud s)))"
proof -
  from assms have wf: "well_formed s" by (rule reachable_well_formed)
  then have wfd: "well_formed (destroy s)" by (rule destroy_well_formed)
  have p: "raf_pending (destroy s) = []" using wf by (rule destroy_pending)
  have a: "handle Destroy s = Done (destroy s)" by (simp add: handle_def)
  have b: "handle Destroy (destroy s) = Done (destroy s)" by (simp add: handle_def destroy_idem)
  have c: "\<forall>evs. raf_pending (run evs (destroy s)) = [] \<and>
                 raf_next (run evs (destroy s)) = raf_next s \<and>
                 time (run evs (destroy s)) = time s"
    using no_pending_run [OF p] by (simp add: destroy_fields)
  have d: "SystemViz False w h rj rp = Done blank" by (simp add: SystemViz_def)
  have e: "length (hud (state_of (on_pointer tol mx my (destroy s)))) = Suc (length (hud s))"
    if "\<exists>n\<in>set (nodes s). hit tol mx my n" for tol
  proof -
    from that have "\<exists>n\<in>set (nodes (destroy s)). hit tol mx my n"
      by (simp add: destroy_fields)
    from on_pointer_hit [OF wfd this] obtain i k where
      "on_pointer tol mx my (destroy s) =
         Done ((destroy s)\<lparr>nodes := (nodes (destroy s))
                   [i := (nodes (destroy s) ! i)\<lparr>active := \<not> active (nodes (destroy s) ! i)\<rparr>],
                 hud := hud (destroy s) @ [k]\<rparr>)"
      by blast
    then show ?thesis by (simp add: destroy_fields)
  qed
  from a b c d e [of click_tolerance] e [of touch_tolerance] blank_step [of Destroy] blank_run
  show ?thesis unfolding handle_pointer [OF wfd] by blast
qed

text \<open>Frames and a button click after the teardown of the example.\<close>

theorem destroy_stops_frames_and_is_idempotent_witness:
  "reachable example_viz \<and>
   raf_pending (run [Frame, ActivateAllClick, Frame] (destroy example_viz)) = [] \<and>
   raf_next (run [Frame, ActivateAllClick, Frame] (destroy example_viz)) = raf_next example_viz \<and>
   time (run [Frame, ActivateAllClick, Frame] (destroy example_viz)) = time example_viz \<and>
   handle Destroy (destroy example_viz) = Done (destroy example_viz)"
  using destroy_stops_frames_and_is_idempotent [OF reachable_example] reachable_example
  by blast

end
